theory Spec2Isabelle
  imports Complex_Main
begin

section \<open>The gap-tolerant aligner (lcs_indicies_ in the node)\<close>

text \<open>
  A cell of the table \<open>dp\<close>: the struct \<open>DPEntry {length, gaps}\<close>. The C++ \<open>int\<close>s are
  modelled as unbounded integers: every value stored is bounded by the lengths of the two
  word lists, far below \<open>2^31\<close>.
\<close>

datatype DPEntry = DPEntry (dp_length: int) (dp_gaps: int)

text \<open>
  The two \<open>std::vector<std::vector<_>>\<close> tables are lists of rows. \<open>get2 t i j\<close> is the read
  \<open>t[i][j]\<close>, \<open>set2 t i j v\<close> the assignment \<open>t[i][j] = v\<close>.
\<close>

definition get2 :: "'a list list \<Rightarrow> nat \<Rightarrow> nat \<Rightarrow> 'a" where
  "get2 t i j = t ! i ! j"

definition set2 :: "'a list list \<Rightarrow> nat \<Rightarrow> nat \<Rightarrow> 'a \<Rightarrow> 'a list list" where
  "set2 t i j v = t[i := (t ! i)[j := v]]"

text \<open>The local variables of \<open>lcs_indicies_\<close> that the two nested loops update.\<close>

record lcs_state =
  dp :: "DPEntry list list"
  prev :: "(int \<times> int) list list"
  maxLength :: int
  endIndexA :: int
  endIndexB :: int

text \<open>
  One relaxation of the non-matching branch: the cell \<open>(si, sj)\<close> is the source, and the
  assignment happens when the source has gap budget left and is strictly longer than the
  current content of \<open>dp[i][j]\<close>.
\<close>

definition relax :: "int \<Rightarrow> nat \<Rightarrow> nat \<Rightarrow> nat \<Rightarrow> nat \<Rightarrow> lcs_state \<Rightarrow> lcs_state" where
  "relax allowedGaps i j si sj st =
     (if dp_gaps (get2 (dp st) si sj) < allowedGaps
         \<and> dp_length (get2 (dp st) i j) < dp_length (get2 (dp st) si sj)
      then st\<lparr>dp := set2 (dp st) i j
                       (DPEntry (dp_length (get2 (dp st) si sj)) (dp_gaps (get2 (dp st) si sj) + 1)),
              prev := set2 (prev st) i j (get2 (prev st) si sj)\<rparr>
      else st)"

text \<open>The tracking of the maximum at the end of the inner loop body (\<open>>=\<close>: the last cell wins).\<close>

definition track_max :: "nat \<Rightarrow> nat \<Rightarrow> lcs_state \<Rightarrow> lcs_state" where
  "track_max i j st =
     (if dp_length (get2 (dp st) i j) \<ge> maxLength st
      then st\<lparr>maxLength := dp_length (get2 (dp st) i j), endIndexA := int i, endIndexB := int j\<rparr>
      else st)"

text \<open>The body of the inner loop for the cell \<open>(i, j)\<close>, \<open>1 \<le> i \<le> nA\<close>, \<open>1 \<le> j \<le> nB\<close>.\<close>

definition lcs_cell ::
  "string list \<Rightarrow> string list \<Rightarrow> int \<Rightarrow> nat \<Rightarrow> nat \<Rightarrow> lcs_state \<Rightarrow> lcs_state" where
  "lcs_cell textA textB allowedGaps i j st =
     track_max i j
       (if textA ! (i - 1) = textB ! (j - 1)
        then st\<lparr>dp := set2 (dp st) i j (DPEntry (dp_length (get2 (dp st) (i - 1) (j - 1)) + 1) 0),
                prev := set2 (prev st) i j (int i - 1, int j - 1)\<rparr>
        else relax allowedGaps i j (i - 1) (j - 1)
               (relax allowedGaps i j i (j - 1)
                 (relax allowedGaps i j (i - 1) j st)))"

definition lcs_init :: "nat \<Rightarrow> nat \<Rightarrow> lcs_state" where
  "lcs_init nA nB =
     \<lparr>dp = replicate (nA + 1) (replicate (nB + 1) (DPEntry 0 0)),
      prev = replicate (nA + 1) (replicate (nB + 1) (- 1, - 1)),
      maxLength = 0, endIndexA = - 1, endIndexB = - 1\<rparr>"

text \<open>The inner loop \<open>for (j = 1; j <= nB; ++j)\<close> and the outer loop over \<open>i\<close>.\<close>

definition lcs_row ::
  "string list \<Rightarrow> string list \<Rightarrow> int \<Rightarrow> nat \<Rightarrow> lcs_state \<Rightarrow> lcs_state" where
  "lcs_row textA textB allowedGaps i st =
     fold (lcs_cell textA textB allowedGaps i) [1..<Suc (length textB)] st"

definition lcs_fill :: "string list \<Rightarrow> string list \<Rightarrow> int \<Rightarrow> lcs_state" where
  "lcs_fill textA textB allowedGaps =
     fold (lcs_row textA textB allowedGaps) [1..<Suc (length textA)]
       (lcs_init (length textA) (length textB))"

text \<open>
  The backtracking loop \<open>while (endIndexA != -1 && endIndexB != -1)\<close>. Nothing in the loop
  itself bounds the number of iterations, so the model is a partial function: \<open>None\<close> stands
  for a run that gives no result, because the loop never ends or because it reads
  \<open>prev\<close> outside the table.
\<close>

partial_function (option) backtrack ::
  "(int \<times> int) list list \<Rightarrow> int \<Rightarrow> int \<Rightarrow> int list \<Rightarrow> int list \<Rightarrow> (int list \<times> int list) option"
where
  "backtrack prv a b resultA resultB =
     (if a \<noteq> - 1 \<and> b \<noteq> - 1
      then (if 0 \<le> a \<and> nat a < length prv \<and> 0 \<le> b \<and> nat b < length (prv ! nat a)
            then backtrack prv (fst (get2 prv (nat a) (nat b))) (snd (get2 prv (nat a) (nat b)))
                   (resultA @ [a]) (resultB @ [b])
            else None)
      else Some (resultA, resultB))"

declare backtrack.simps [code]

text \<open>
  \<open>lcs_indicies_\<close> itself: fill the table, return two empty lists when no cell has a positive
  length, otherwise backtrack from the predecessor of the end cell and reverse. The read of
  \<open>prev[endIndexA][endIndexB]\<close> is checked like the reads inside the loop.
\<close>

definition lcs_indicies ::
  "string list \<Rightarrow> string list \<Rightarrow> int \<Rightarrow> (int list \<times> int list) option" where
  "lcs_indicies textA textB allowedGaps =
     (let st = lcs_fill textA textB allowedGaps
      in if maxLength st = 0 then Some ([], [])
         else if 0 \<le> endIndexA st \<and> nat (endIndexA st) < length (prev st)
                 \<and> 0 \<le> endIndexB st \<and> nat (endIndexB st) < length (prev st ! nat (endIndexA st))
         then (case backtrack (prev st)
                      (fst (get2 (prev st) (nat (endIndexA st)) (nat (endIndexB st))))
                      (snd (get2 (prev st) (nat (endIndexA st)) (nat (endIndexB st)))) [] []
               of None \<Rightarrow> None
                | Some (resultA, resultB) \<Rightarrow> Some (rev resultA, rev resultB))
         else None)"

subsection \<open>Invariants of the table\<close>

text \<open>
  The predicates below are used in the proofs only. \<open>wf_tab\<close>: the table has \<open>nA + 1\<close> rows of
  \<open>nB + 1\<close> cells. \<open>processed i j i' j'\<close>: the loops, standing at cell \<open>(i, j)\<close>, have already
  been through cell \<open>(i', j')\<close>. \<open>cell_ok\<close>: a cell of length 0 has no predecessor; a cell of
  positive length points to an exact match strictly above and to the left of it, whose own
  cell is one shorter.
\<close>

definition wf_tab :: "nat \<Rightarrow> nat \<Rightarrow> 'a list list \<Rightarrow> bool" where
  "wf_tab nA nB t \<longleftrightarrow> length t = nA + 1 \<and> (\<forall>i \<le> nA. length (t ! i) = nB + 1)"

definition processed :: "nat \<Rightarrow> nat \<Rightarrow> nat \<Rightarrow> nat \<Rightarrow> bool" where
  "processed i j i' j' \<longleftrightarrow> 1 \<le> i' \<and> 1 \<le> j' \<and> (i' < i \<or> (i' = i \<and> j' < j))"

definition cell_ok :: "string list \<Rightarrow> string list \<Rightarrow> lcs_state \<Rightarrow> nat \<Rightarrow> nat \<Rightarrow> bool" where
  "cell_ok A B st i j \<longleftrightarrow>
     (dp_length (get2 (dp st) i j) = 0 \<and> get2 (prev st) i j = (- 1, - 1)) \<or>
     (0 < dp_length (get2 (dp st) i j) \<and>
      0 \<le> fst (get2 (prev st) i j) \<and> fst (get2 (prev st) i j) < int i \<and>
      0 \<le> snd (get2 (prev st) i j) \<and> snd (get2 (prev st) i j) < int j \<and>
      A ! nat (fst (get2 (prev st) i j)) = B ! nat (snd (get2 (prev st) i j)) \<and>
      dp_length (get2 (dp st) (nat (fst (get2 (prev st) i j))) (nat (snd (get2 (prev st) i j))))
        = dp_length (get2 (dp st) i j) - 1)"

definition tab_inv :: "string list \<Rightarrow> string list \<Rightarrow> lcs_state \<Rightarrow> nat \<Rightarrow> nat \<Rightarrow> bool" where
  "tab_inv A B st i j \<longleftrightarrow>
     wf_tab (length A) (length B) (dp st) \<and> wf_tab (length A) (length B) (prev st) \<and>
     (\<forall>i' \<le> length A. \<forall>j' \<le> length B.
        cell_ok A B st i' j' \<and> (\<not> processed i j i' j' \<longrightarrow> dp_length (get2 (dp st) i' j') = 0))"

definition max_inv :: "string list \<Rightarrow> string list \<Rightarrow> lcs_state \<Rightarrow> nat \<Rightarrow> nat \<Rightarrow> bool" where
  "max_inv A B st i j \<longleftrightarrow>
     0 \<le> maxLength st \<and>
     (\<forall>i' \<le> length A. \<forall>j' \<le> length B.
        processed i j i' j' \<longrightarrow> dp_length (get2 (dp st) i' j') \<le> maxLength st) \<and>
     (maxLength st = 0 \<or>
      (0 \<le> endIndexA st \<and> 0 \<le> endIndexB st \<and>
       nat (endIndexA st) \<le> length A \<and> nat (endIndexB st) \<le> length B \<and>
       processed i j (nat (endIndexA st)) (nat (endIndexB st)) \<and>
       dp_length (get2 (dp st) (nat (endIndexA st)) (nat (endIndexB st))) = maxLength st))"

text \<open>
  \<open>match_inv\<close>: a cell that the loops have been through and whose two strings are equal
  points to its upper left neighbour and is one longer than it. \<open>lcs_inv\<close> collects the
  three invariants of the loops.
\<close>

definition match_inv :: "string list \<Rightarrow> string list \<Rightarrow> lcs_state \<Rightarrow> nat \<Rightarrow> nat \<Rightarrow> bool" where
  "match_inv A B st i j \<longleftrightarrow>
     (\<forall>i' \<le> length A. \<forall>j' \<le> length B.
        processed i j i' j' \<and> A ! (i' - 1) = B ! (j' - 1) \<longrightarrow>
          get2 (prev st) i' j' = (int i' - 1, int j' - 1) \<and>
          dp_length (get2 (dp st) i' j') = dp_length (get2 (dp st) (i' - 1) (j' - 1)) + 1)"

definition lcs_inv :: "string list \<Rightarrow> string list \<Rightarrow> lcs_state \<Rightarrow> nat \<Rightarrow> nat \<Rightarrow> bool" where
  "lcs_inv A B st i j \<longleftrightarrow> tab_inv A B st i j \<and> max_inv A B st i j \<and> match_inv A B st i j"

section \<open>Words, operations and the transcript\<close>

text \<open>
  Modelled from the spec: the classes \<open>SingleToken\<close>, \<open>Word\<close>, \<open>SegmentMetaData\<close> and
  \<open>Transcript\<close> are declared in headers that are not part of the sources at hand; the node
  only calls their methods. The data model follows section 3 of the specification. A
  probability is a \<open>float\<close> in the code; the model uses a real number and only ever copies
  it. Times are integers (milliseconds).
\<close>

datatype SingleToken = SingleToken (tok_text: string) (tok_prob: real)

datatype Word =
    TextWord (tokens: "SingleToken list") (punct: bool) (occurrences: int)
  | Segment (end_token: SingleToken) (duration: int) (start: int) (occurrences: int)

text \<open>
  Modelled from the spec: \<open>is_segment\<close> and \<open>is_punct\<close> read the tag and the punctuation flag; a
  segment is not punctuation.
\<close>

fun is_segment :: "Word \<Rightarrow> bool" where
  "is_segment (Segment _ _ _ _) = True"
| "is_segment (TextWord _ _ _) = False"

fun is_punct :: "Word \<Rightarrow> bool" where
  "is_punct (TextWord _ p _) = p"
| "is_punct (Segment _ _ _ _) = False"

text \<open>
  Modelled from the spec: \<open>get\<close>, the derived text of a word, is the concatenation of the
  texts of its tokens. The node reads the text of a segment in log messages only, which are
  left out; a segment has the empty text here.
\<close>

fun get :: "Word \<Rightarrow> string" where
  "get (TextWord ts _ _) = concat (map tok_text ts)"
| "get (Segment _ _ _ _) = []"

text \<open>
  The characters that \<open>std::isspace\<close> accepts in the C locale, and the lower-casing of the
  letters \<open>A\<close> to \<open>Z\<close>.
\<close>

definition isspace :: "char \<Rightarrow> bool" where
  "isspace c \<longleftrightarrow> c \<in> set [CHR '' '', CHR 0x09, CHR 0x0A, CHR 0x0B, CHR 0x0C, CHR 0x0D]"

definition tolower :: "char \<Rightarrow> char" where
  "tolower c = (if 65 \<le> (of_char c :: nat) \<and> (of_char c :: nat) \<le> 90
                then char_of ((of_char c :: nat) + 32) else c)"

definition trim :: "string \<Rightarrow> string" where
  "trim s = rev (dropWhile isspace (rev (dropWhile isspace s)))"

text \<open>
  Modelled from the spec: the comparable form of a word is its text, trimmed and lower-cased;
  punctuation words and segments have the empty comparable form.
\<close>

fun get_comparable :: "Word \<Rightarrow> string" where
  "get_comparable (TextWord ts p oc) = (if p then [] else map tolower (trim (concat (map tok_text ts))))"
| "get_comparable (Segment _ _ _ _) = []"

text \<open>
  The edit operations that the planner emits, with the index into the old words and the
  index into the new words. The code builds them as \<open>{type, id, other_id}\<close>; a \<open>DECREMENT\<close>
  carries no meaningful second index.
\<close>

datatype Operation =
    MATCHED_WORD int int
  | INSERT int int
  | DECREMENT int
  | CONFLICT int int
  | MERGE_SEGMENTS int int

record Transcript =
  entries :: "Word list"
  stale_word_id :: int

text \<open>Modelled from the spec: the accessors of the transcript store (section 4.3).\<close>

definition empty_transcript :: "Transcript \<Rightarrow> bool" where
  "empty_transcript t \<longleftrightarrow> entries t = []"

definition push_back :: "Word list \<Rightarrow> Transcript \<Rightarrow> Transcript" where
  "push_back ws t = t\<lparr>entries := entries t @ ws\<rparr>"

definition get_words_splice :: "Transcript \<Rightarrow> Word list" where
  "get_words_splice t = drop (nat (stale_word_id t)) (entries t)"

definition set_stale_word_id :: "int \<Rightarrow> Transcript \<Rightarrow> Transcript" where
  "set_stale_word_id v t = t\<lparr>stale_word_id := max (stale_word_id t) v\<rparr>"

text \<open>
  The two remaining methods of the transcript that the node calls, \<open>run\<close> and
  \<open>clear_mistakes\<close>, are not part of the sources at hand either, and the specification
  describes the removal of entries in more than one way (entries at or below zero in
  section 3, entries at or below the threshold \<open>-1\<close> in section 4.3, with a further decrement
  of neighbouring words when a segment is removed). They are parameters of \<open>merge_one\<close>
  below, so that nothing proved here depends on a reading of those sentences.
\<close>

type_synonym run_method = "Operation list \<Rightarrow> Word list \<Rightarrow> Transcript \<Rightarrow> Transcript"

type_synonym clear_mistakes_method = "int \<Rightarrow> Transcript \<Rightarrow> Transcript"

section \<open>The merge planner and driver (merge_one_ in the node)\<close>

text \<open>
  The two loops that project a word list onto its comparable words: \<open>comp_words\<close> collects the
  non-empty comparable forms, \<open>skipped_ids\<close> the number of entries skipped before each of them.
\<close>

fun comparable_loop ::
  "Word list \<Rightarrow> string list \<Rightarrow> int list \<Rightarrow> nat \<Rightarrow> string list \<times> int list" where
  "comparable_loop [] comp_words skipped_ids skipped_so_far = (comp_words, skipped_ids)"
| "comparable_loop (w # ws) comp_words skipped_ids skipped_so_far =
     (if get_comparable w = []
      then comparable_loop ws comp_words skipped_ids (skipped_so_far + 1)
      else comparable_loop ws (comp_words @ [get_comparable w])
             (skipped_ids @ [int skipped_so_far]) skipped_so_far)"

definition comparable_words :: "Word list \<Rightarrow> string list \<times> int list" where
  "comparable_words ws = comparable_loop ws [] [] 0"

text \<open>
  What can go wrong in the planner: a read outside a vector (undefined behaviour in the
  code, which does not check its indices), or an aligner that gives no result.
\<close>

datatype merge_error = OutOfRange | NoAlignment

definition in_range :: "'a list \<Rightarrow> int \<Rightarrow> bool" where
  "in_range xs k \<longleftrightarrow> 0 \<le> k \<and> nat k < length xs"

definition elem_at :: "'a list \<Rightarrow> int \<Rightarrow> 'a" where
  "elem_at xs k = xs ! nat k"

text \<open>
  The second chain of rules of the walk (1, 1.2, 1.3 and the last \<open>else\<close>), which ends one
  round of the \<open>while\<close> loop: the new list of operations and the new cursors.
\<close>

definition word_rules ::
  "Word list \<Rightarrow> Word list \<Rightarrow> int \<Rightarrow> int \<Rightarrow> int \<Rightarrow> int \<Rightarrow> Operation list
     \<Rightarrow> Operation list \<times> int \<times> int" where
  "word_rules old_words new_words nextA_id nextB_id curA_id curB_id pending_ops =
     (if curA_id \<noteq> nextA_id \<and> curB_id \<noteq> nextB_id
         \<and> is_punct (elem_at old_words curA_id) \<and> \<not> is_punct (elem_at new_words curB_id)
      then (pending_ops @ [DECREMENT curA_id, CONFLICT curA_id curB_id], curA_id + 1, curB_id + 1)
      else if curA_id \<noteq> nextA_id \<and> curB_id \<noteq> nextB_id
      then (pending_ops @ [CONFLICT curA_id curB_id], curA_id + 1, curB_id + 1)
      else if curB_id \<noteq> nextB_id
      then (pending_ops @ [INSERT curA_id curB_id], curA_id, curB_id + 1)
      else (pending_ops @ [DECREMENT curA_id], curA_id + 1, curB_id))"

text \<open>
  The \<open>while\<close> loop between two anchors. In every round the conditions of rules 0.1 to 0.3
  read \<open>old_words[curA_id]\<close> exactly when \<open>curA_id != nextA_id\<close>, and \<open>new_words[curB_id]\<close>
  exactly when \<open>curB_id != nextB_id\<close> (the conjunctions short-circuit); the model checks
  these two reads first. Rule 0.1 appends \<open>MERGE_SEGMENTS\<close> and, having no \<open>continue\<close>,
  goes on into the second chain of rules in the same round; rules 0.2 and 0.3 end the round.
\<close>

function walk ::
  "Word list \<Rightarrow> Word list \<Rightarrow> int \<Rightarrow> int \<Rightarrow> int \<Rightarrow> int \<Rightarrow> Operation list
     \<Rightarrow> merge_error + Operation list" where
  "walk old_words new_words nextA_id nextB_id curA_id curB_id pending_ops =
     (if curA_id \<noteq> nextA_id \<or> curB_id \<noteq> nextB_id
      then
        if (curA_id \<noteq> nextA_id \<and> \<not> in_range old_words curA_id)
           \<or> (curB_id \<noteq> nextB_id \<and> \<not> in_range new_words curB_id)
        then Inl OutOfRange
        else if curA_id \<noteq> nextA_id \<and> curB_id \<noteq> nextB_id
                \<and> is_segment (elem_at old_words curA_id) \<and> is_segment (elem_at new_words curB_id)
        then (case word_rules old_words new_words nextA_id nextB_id curA_id curB_id
                     (pending_ops @ [MERGE_SEGMENTS curA_id curB_id])
              of (ops, a, b) \<Rightarrow> walk old_words new_words nextA_id nextB_id a b ops)
        else if curA_id \<noteq> nextA_id \<and> is_segment (elem_at old_words curA_id)
        then walk old_words new_words nextA_id nextB_id (curA_id + 1) curB_id
               (pending_ops @ [DECREMENT curA_id, DECREMENT curA_id])
        else if curB_id \<noteq> nextB_id \<and> is_segment (elem_at new_words curB_id)
        then walk old_words new_words nextA_id nextB_id curA_id (curB_id + 1)
               (pending_ops @ [INSERT curA_id curB_id])
        else (case word_rules old_words new_words nextA_id nextB_id curA_id curB_id pending_ops
              of (ops, a, b) \<Rightarrow> walk old_words new_words nextA_id nextB_id a b ops)
      else Inr pending_ops)"
  by pat_completeness auto
termination
  by (relation "measure (\<lambda>(old_words, new_words, nextA_id, nextB_id, curA_id, curB_id, pending_ops).
          nat (int (length old_words) - curA_id) + nat (int (length new_words) - curB_id))")
     (auto simp: word_rules_def in_range_def split: if_splits)

declare walk.simps [simp del]

text \<open>
  The \<open>for\<close> loop over the anchors, \<open>i\<close> from 1 to the number of anchors. Each round records
  the anchor \<open>(prevA, prevB)\<close>, translated by the skip offsets, walks to the next anchor or, in
  the last round, to the ends of both lists, and then executes
  \<open>prevA = indiciesA[i]; prevB = indiciesB[i]\<close>. In the last round \<open>i\<close> is the size of both
  vectors, so this read is outside them, like any other read outside a vector.

  The result is the state in which the loop stops: \<open>None\<close> when the loop condition fails,
  \<open>Some e\<close> when a read outside a vector ends the run, together with the operations pushed on
  \<open>pending_ops\<close> up to there (those of a walk that fails are not kept).
\<close>

function anchors_loop ::
  "Word list \<Rightarrow> Word list \<Rightarrow> int list \<Rightarrow> int list \<Rightarrow> int list \<Rightarrow> int list
     \<Rightarrow> nat \<Rightarrow> int \<Rightarrow> int \<Rightarrow> Operation list \<Rightarrow> merge_error option \<times> Operation list" where
  "anchors_loop old_words new_words indiciesA indiciesB skipped_ids_old skipped_ids_new
       i prevA prevB pending_ops =
     (if i \<le> length indiciesA
      then
        if \<not> in_range skipped_ids_old prevA \<or> \<not> in_range skipped_ids_new prevB
        then (Some OutOfRange, pending_ops)
        else
          let prevA_id = prevA + elem_at skipped_ids_old prevA;
              prevB_id = prevB + elem_at skipped_ids_new prevB;
              ops = pending_ops @ [MATCHED_WORD prevA_id prevB_id]
          in if i \<noteq> length indiciesA
                \<and> (i \<ge> length indiciesB
                     \<or> \<not> in_range skipped_ids_old (indiciesA ! i)
                     \<or> \<not> in_range skipped_ids_new (indiciesB ! i))
             then (Some OutOfRange, ops)
             else
               (case walk old_words new_words
                       (if i = length indiciesA then int (length old_words)
                        else indiciesA ! i + elem_at skipped_ids_old (indiciesA ! i))
                       (if i = length indiciesA then int (length new_words)
                        else indiciesB ! i + elem_at skipped_ids_new (indiciesB ! i))
                       (prevA_id + 1) (prevB_id + 1) ops
                of Inl e \<Rightarrow> (Some e, ops)
                 | Inr ops' \<Rightarrow>
                     if i < length indiciesA \<and> i < length indiciesB
                     then anchors_loop old_words new_words indiciesA indiciesB
                            skipped_ids_old skipped_ids_new (i + 1) (indiciesA ! i) (indiciesB ! i) ops'
                     else (Some OutOfRange, ops'))
      else (None, pending_ops))"
  by pat_completeness auto
termination
  by (relation "measure (\<lambda>(old_words, new_words, indiciesA, indiciesB, skipped_ids_old,
          skipped_ids_new, i, prevA, prevB, pending_ops). Suc (length indiciesA) - i)") auto

declare anchors_loop.simps [simp del]

text \<open>
  The planner: everything \<open>merge_one_\<close> does between the emptiness test and \<open>run\<close>. \<open>Inr None\<close>
  is the case "no overlap", in which no operation is pushed; \<open>Inr (Some (a0, b0, ops))\<close> is a
  finished plan with the first anchor \<open>(a0, b0)\<close> of the alignment. \<open>pending_ops_of\<close> is the
  content of \<open>pending_ops\<close> when the planner stops, however it stops.
\<close>

definition allowed_gaps :: int where
  "allowed_gaps = 4"

definition plan :: "Word list \<Rightarrow> Word list \<Rightarrow> merge_error + (int \<times> int \<times> Operation list) option" where
  "plan old_words new_words =
     (let (comp_words_old, skipped_ids_old) = comparable_words old_words;
          (comp_words_new, skipped_ids_new) = comparable_words new_words
      in (case lcs_indicies comp_words_old comp_words_new allowed_gaps of
            None \<Rightarrow> Inl NoAlignment
          | Some (indiciesA, indiciesB) \<Rightarrow>
              (if indiciesA = [] then Inr None
               else if indiciesB = [] then Inl OutOfRange
               else (case anchors_loop old_words new_words indiciesA indiciesB
                            skipped_ids_old skipped_ids_new 1 (indiciesA ! 0) (indiciesB ! 0) []
                     of (Some e, pending_ops) \<Rightarrow> Inl e
                      | (None, pending_ops) \<Rightarrow> Inr (Some (indiciesA ! 0, indiciesB ! 0, pending_ops))))))"

definition pending_ops_of :: "Word list \<Rightarrow> Word list \<Rightarrow> Operation list" where
  "pending_ops_of old_words new_words =
     (let (comp_words_old, skipped_ids_old) = comparable_words old_words;
          (comp_words_new, skipped_ids_new) = comparable_words new_words
      in (case lcs_indicies comp_words_old comp_words_new allowed_gaps of
            None \<Rightarrow> []
          | Some (indiciesA, indiciesB) \<Rightarrow>
              (if indiciesA = [] \<or> indiciesB = [] then []
               else snd (anchors_loop old_words new_words indiciesA indiciesB
                           skipped_ids_old skipped_ids_new 1 (indiciesA ! 0) (indiciesB ! 0) []))))"

text \<open>
  \<open>merge_one_\<close>: the first update is stored as it is; an update without overlap is appended;
  otherwise the planned operations are run, the mistakes cleared with threshold \<open>-1\<close>, and
  the stale boundary moved.
\<close>

definition merge_one ::
  "run_method \<Rightarrow> clear_mistakes_method \<Rightarrow> Word list \<Rightarrow> Transcript \<Rightarrow> merge_error + Transcript" where
  "merge_one run clear_mistakes new_words t =
     (let stale_id = stale_word_id t
      in if empty_transcript t then Inr (push_back new_words t)
         else (case plan (get_words_splice t) new_words of
                 Inl e \<Rightarrow> Inl e
               | Inr None \<Rightarrow> Inr (push_back new_words t)
               | Inr (Some (a0, b0, pending_ops)) \<Rightarrow>
                   Inr (set_stale_word_id (max stale_id (stale_id + a0 - b0))
                         (clear_mistakes (- 1) (run pending_ops new_words t)))))"


subsection \<open>Predicates used in the proofs about the planner\<close>

text \<open>
  \<open>proj_ok ws c s\<close>: \<open>c\<close> and \<open>s\<close> are a comparable projection of \<open>ws\<close> with its skip offsets:
  position \<open>k\<close> of the projection is the entry \<open>k + s[k]\<close> of \<open>ws\<close>, whose comparable form is
  the non-empty \<open>c[k]\<close>, and the offsets never decrease. \<open>is_matched\<close> recognises the
  operation \<open>MATCHED_WORD\<close>.
\<close>

definition proj_ok :: "Word list \<Rightarrow> string list \<Rightarrow> int list \<Rightarrow> bool" where
  "proj_ok ws c s \<longleftrightarrow>
     length c = length s \<and>
     (\<forall>k < length c. 0 \<le> s ! k \<and> k + nat (s ! k) < length ws \<and>
        get_comparable (ws ! (k + nat (s ! k))) = c ! k \<and> c ! k \<noteq> []) \<and>
     (\<forall>k k'. k < k' \<and> k' < length c \<longrightarrow> s ! k \<le> s ! k')"


fun is_matched :: "Operation \<Rightarrow> bool" where
  "is_matched (MATCHED_WORD _ _) = True"
| "is_matched _ = False"

text \<open>
  \<open>diag_op n\<close>: an operation that pairs an entry below \<open>n\<close> with the entry of the same index
  and neither inserts nor decrements.
\<close>

definition diag_op :: "nat \<Rightarrow> Operation \<Rightarrow> bool" where
  "diag_op n op \<longleftrightarrow>
     (\<exists>k. 0 \<le> k \<and> k < int n \<and> (op = MATCHED_WORD k k \<or> op = CONFLICT k k \<or> op = MERGE_SEGMENTS k k))"

section \<open>Publishing the transcript (serialize_transcript_ in the node)\<close>

text \<open>
  The message \<open>AudioTranscript\<close>, with the fields that \<open>serialize_transcript_\<close> fills. The
  probability of a word, \<open>Word::get_prob\<close>, is the parameter \<open>word_prob\<close> applied to its tokens.
\<close>

record AudioTranscript =
  words :: "string list"
  probs :: "real list"
  occ :: "int list"
  seg_start_words_id :: "int list"
  seg_start_time :: "int list"
  seg_duration_ms :: "int list"
  active_index :: int

definition empty_message :: AudioTranscript where
  "empty_message = \<lparr>words = [], probs = [], occ = [], seg_start_words_id = [],
     seg_start_time = [], seg_duration_ms = [], active_index = 0\<rparr>"

text \<open>One round of the loop over the transcript: the message and the counter \<open>words_skipped\<close>.\<close>

fun serialize_word ::
  "(SingleToken list \<Rightarrow> real) \<Rightarrow> Word \<Rightarrow> AudioTranscript \<times> int \<Rightarrow> AudioTranscript \<times> int" where
  "serialize_word word_prob (Segment e d s oc) (msg, words_skipped) =
     (msg\<lparr>seg_start_words_id := seg_start_words_id msg @ [int (length (words msg))],
          seg_start_time := seg_start_time msg @ [s],
          seg_duration_ms := seg_duration_ms msg @ [d]\<rparr>,
      words_skipped + 1)"
| "serialize_word word_prob (TextWord ts p oc) (msg, words_skipped) =
     (msg\<lparr>words := words msg @ [get (TextWord ts p oc)],
          probs := probs msg @ [word_prob ts],
          occ := occ msg @ [oc]\<rparr>,
      words_skipped)"

definition serialize_transcript ::
  "(SingleToken list \<Rightarrow> real) \<Rightarrow> Transcript \<Rightarrow> AudioTranscript \<Rightarrow> AudioTranscript" where
  "serialize_transcript word_prob t msg =
     (case fold (serialize_word word_prob) (entries t) (msg, 0) of
        (msg', words_skipped) \<Rightarrow> msg'\<lparr>active_index := stale_word_id t - words_skipped\<rparr>)"

text \<open>
  The specification's reading of \<open>active_index\<close>: the stale boundary minus the number of
  segments that stand before it in the transcript.
\<close>

definition segments_before_stale :: "Transcript \<Rightarrow> int" where
  "segments_before_stale t =
     int (length (filter is_segment (take (nat (stale_word_id t)) (entries t))))"


section \<open>Deserialising a token message (deserialize_msg_ in the node)\<close>

record WhisperTokens =
  stamp :: int
  token_texts :: "string list"
  token_probs :: "real list"
  segment_start_token_idxs :: "int list"
  start_times :: "int list"
  end_times :: "int list"

text \<open>
  The helpers that \<open>deserialize_msg_\<close> calls and that are defined outside the sources at
  hand, and the constant \<open>whisper_ts_to_ms_ratio\<close>, are parameters of the model.
\<close>

record token_helpers =
  is_special_token :: "string list \<Rightarrow> nat \<Rightarrow> bool"
  my_ispunct :: "string list \<Rightarrow> nat \<Rightarrow> bool"
  join_tokens :: "string list \<Rightarrow> nat \<Rightarrow> bool \<times> int"
  combine_text :: "string list \<Rightarrow> nat \<Rightarrow> int \<Rightarrow> string"
  combine_prob :: "real list \<Rightarrow> nat \<Rightarrow> int \<Rightarrow> real"
  whisper_ts_to_ms_ratio :: int

text \<open>
  The first part of the loop body: when token \<open>i\<close> starts the next segment, the word in
  progress is completed, if there is one, and the segment is added. \<open>None\<close>: a read outside
  one of the arrays of the message. (A segment that is not the last one has a successor, so
  the read of \<open>segment_start_token_idxs[segment_ptr + 1]\<close> is inside the array.)
\<close>

definition segment_start ::
  "token_helpers \<Rightarrow> WhisperTokens \<Rightarrow> nat \<Rightarrow> nat \<Rightarrow> Word list \<Rightarrow> SingleToken list
     \<Rightarrow> (nat \<times> Word list \<times> SingleToken list) option" where
  "segment_start h msg i segment_ptr wds word_wip =
     (if segment_ptr < length (segment_start_token_idxs msg)
         \<and> int i = segment_start_token_idxs msg ! segment_ptr
      then
        let wds1 = (if word_wip \<noteq> [] then wds @ [TextWord word_wip False 1] else wds);
            end_token_id =
              (if segment_ptr = length (segment_start_token_idxs msg) - 1
               then int (length (token_texts msg)) - 1
               else segment_start_token_idxs msg ! (segment_ptr + 1) - 1)
        in if in_range (token_texts msg) end_token_id \<and> in_range (token_probs msg) end_token_id
              \<and> segment_ptr < length (start_times msg) \<and> segment_ptr < length (end_times msg)
           then
             let start_ms = start_times msg ! segment_ptr * whisper_ts_to_ms_ratio h;
                 end_ms = end_times msg ! segment_ptr * whisper_ts_to_ms_ratio h
             in Some (segment_ptr + 1,
                      wds1 @ [Segment (SingleToken (elem_at (token_texts msg) end_token_id)
                                                   (elem_at (token_probs msg) end_token_id))
                                      (end_ms - start_ms) (stamp msg + start_ms) 1],
                      [])
           else None
      else Some (segment_ptr, wds, word_wip))"

text \<open>
  The loop over the tokens. The constructors of \<open>Word\<close> are not part of the sources at hand;
  following the specification, a word built from the tokens in progress has
  \<open>is_punct = false\<close>, and every new entry has the count 1. The branch for a joined token moves \<open>i\<close> by \<open>num_tokens\<close>, which a helper
  chooses, so nothing in the loop itself bounds the number of rounds: the model is a partial
  function, with \<open>None\<close> for a run that gives no result (no end, or a read outside an array).
  In \<open>size_t\<close> arithmetic a negative \<open>i + num_tokens\<close> is a huge index, which ends the loop.
\<close>

partial_function (option) deserialize_loop ::
  "token_helpers \<Rightarrow> WhisperTokens \<Rightarrow> nat \<Rightarrow> nat \<Rightarrow> Word list \<Rightarrow> SingleToken list \<Rightarrow> Word list option"
where
  "deserialize_loop h msg i segment_ptr wds word_wip =
     (if i < length (token_texts msg)
      then
        (case segment_start h msg i segment_ptr wds word_wip of
           None \<Rightarrow> None
         | Some (segment_ptr1, wds1, wip1) \<Rightarrow>
             (let flush = (wip1 \<noteq> [] \<and> token_texts msg ! i \<noteq> []
                           \<and> isspace (hd (token_texts msg ! i)));
                  wds2 = (if flush then wds1 @ [TextWord wip1 False 1] else wds1);
                  wip2 = (if flush then [] else wip1)
              in if is_special_token h (token_texts msg) i
                 then deserialize_loop h msg (i + 1) segment_ptr1 wds2 wip2
                 else if my_ispunct h (token_texts msg) i
                 then (if i < length (token_probs msg)
                       then deserialize_loop h msg (i + 1) segment_ptr1
                              (wds2 @ [TextWord wip2 False 1,
                                       TextWord [SingleToken (token_texts msg ! i) (token_probs msg ! i)] True 1])
                              []
                       else None)
                 else if fst (join_tokens h (token_texts msg) i)
                 then deserialize_loop h msg
                        (if int i + snd (join_tokens h (token_texts msg) i) < 0
                         then length (token_texts msg)
                         else nat (int i + snd (join_tokens h (token_texts msg) i)))
                        segment_ptr1 wds2
                        (wip2 @ [SingleToken
                                   (combine_text h (token_texts msg) i (snd (join_tokens h (token_texts msg) i)))
                                   (combine_prob h (token_probs msg) i (snd (join_tokens h (token_texts msg) i)))])
                 else (if i < length (token_probs msg)
                       then deserialize_loop h msg (i + 1) segment_ptr1 wds2
                              (wip2 @ [SingleToken (token_texts msg ! i) (token_probs msg ! i)])
                       else None)))
      else Some (if word_wip \<noteq> [] then wds @ [TextWord word_wip False 1] else wds))"

declare deserialize_loop.simps [code]

definition deserialize_msg :: "token_helpers \<Rightarrow> WhisperTokens \<Rightarrow> Word list option" where
  "deserialize_msg h msg = deserialize_loop h msg 0 0 [] []"


section \<open>The inference request handler (on_inference_accepted_ in the node)\<close>

text \<open>
  The handler is sequential code; everything it learns about the other threads comes from
  \<open>rclcpp::ok()\<close>, \<open>now()\<close>, \<open>is_canceling()\<close> and the ring of incoming word lists. The model
  reads them from an environment indexed by a logical clock that counts the calls of
  \<open>sleep_for(15ms)\<close>: \<open>arrivals env k\<close> are the word lists that the producer puts on the ring
  during the sleep number \<open>k\<close>.
\<close>

record inference_env =
  ok_at :: "nat \<Rightarrow> bool"
  now_at :: "nat \<Rightarrow> int"
  canceling_at :: "nat \<Rightarrow> bool"
  arrivals :: "nat \<Rightarrow> Word list list"

datatype inference_outcome =
    Timed_out "string list"
  | Canceled "string list"
  | Shut_down

text \<open>The loop \<open>while (incoming_queue_->empty()) sleep_for(15ms)\<close>: the clock and the ring after it.\<close>

partial_function (option) wait_for_data ::
  "inference_env \<Rightarrow> nat \<Rightarrow> Word list list \<Rightarrow> (nat \<times> Word list list) option" where
  "wait_for_data env tick ring =
     (if ring = [] then wait_for_data env (Suc tick) (arrivals env tick)
      else Some (tick, ring))"

declare wait_for_data.simps [code]

text \<open>
  The outer loop \<open>while (rclcpp::ok())\<close>: the deadline test, the cancellation test, the wait
  for data, then the draining of the ring into one feedback message, which is also added to
  the transcriptions of the result. The batch counter and the publishing of the feedback do
  not influence the control flow and are left out. \<open>None\<close>: the handler never returns.
\<close>

partial_function (option) inference_loop ::
  "inference_env \<Rightarrow> int \<Rightarrow> int \<Rightarrow> nat \<Rightarrow> Word list list \<Rightarrow> string list \<Rightarrow> inference_outcome option"
where
  "inference_loop env inference_start_time max_duration tick ring transcriptions =
     (if ok_at env tick
      then if now_at env tick - inference_start_time > max_duration
           then Some (Timed_out transcriptions)
           else if canceling_at env tick
           then Some (Canceled transcriptions)
           else (case wait_for_data env tick ring of
                   None \<Rightarrow> None
                 | Some (tick', ring') \<Rightarrow>
                     inference_loop env inference_start_time max_duration tick' []
                       (transcriptions @ [concat (map get (filter (\<lambda>w. \<not> is_segment w) (concat ring')))]))
      else Some Shut_down)"

declare inference_loop.simps [code]

definition on_inference_accepted ::
  "inference_env \<Rightarrow> int \<Rightarrow> Word list list \<Rightarrow> inference_outcome option" where
  "on_inference_accepted env max_duration ring =
     inference_loop env (now_at env 0) max_duration 0 ring []"


section \<open>Correctness of the aligner\<close>

lemma get2_set2:
  "wf_tab nA nB t \<Longrightarrow> i \<le> nA \<Longrightarrow> j \<le> nB \<Longrightarrow>
   get2 (set2 t i j v) i' j' = (if i' = i \<and> j' = j then v else get2 t i' j')"
  by (auto simp: wf_tab_def get2_def set2_def nth_list_update)

lemma wf_set2: "wf_tab nA nB t \<Longrightarrow> wf_tab nA nB (set2 t i j v)"
  by (cases "i \<le> nA") (auto simp: wf_tab_def set2_def nth_list_update)

lemma tab_inv_mono: "tab_inv A B st i j \<Longrightarrow> tab_inv A B st i (Suc j)"
  by (auto simp: tab_inv_def processed_def)

lemma tab_inv_write:
  assumes inv: "tab_inv A B st i (Suc j)"
    and ij: "i \<le> length A" "j \<le> length B"
    and new: "0 < l" "0 \<le> a" "a < int i" "0 \<le> b" "b < int j" "A ! nat a = B ! nat b"
             "dp_length (get2 (dp st) (nat a) (nat b)) = l - 1"
  shows "tab_inv A B (st\<lparr>dp := set2 (dp st) i j (DPEntry l g), prev := set2 (prev st) i j (a, b)\<rparr>) i (Suc j)"
proof -
  let ?st = "st\<lparr>dp := set2 (dp st) i j (DPEntry l g), prev := set2 (prev st) i j (a, b)\<rparr>"
  have wfd: "wf_tab (length A) (length B) (dp st)" and wfp: "wf_tab (length A) (length B) (prev st)"
    using inv by (auto simp: tab_inv_def)
  have d: "get2 (dp ?st) i' j' = (if i' = i \<and> j' = j then DPEntry l g else get2 (dp st) i' j')" for i' j'
    using get2_set2[OF wfd ij] by simp
  have p: "get2 (prev ?st) i' j' = (if i' = i \<and> j' = j then (a, b) else get2 (prev st) i' j')" for i' j'
    using get2_set2[OF wfp ij] by simp
  have cell: "cell_ok A B ?st i' j'" if b: "i' \<le> length A" "j' \<le> length B" for i' j'
  proof (cases "i' = i \<and> j' = j")
    case True
    have "nat a \<noteq> i" using new by linarith
    then show ?thesis using True new unfolding cell_ok_def d p by simp
  next
    case False
    have ok: "cell_ok A B st i' j'" using inv b by (auto simp: tab_inv_def)
    show ?thesis
    proof (cases "dp_length (get2 (dp st) i' j') = 0")
      case True
      then show ?thesis using ok False unfolding cell_ok_def d p by auto
    next
      case nz: False
      then have "processed i (Suc j) i' j'" using inv b by (auto simp: tab_inv_def)
      then have "i' \<le> i" by (auto simp: processed_def)
      moreover have "fst (get2 (prev st) i' j') < int i'" "0 \<le> fst (get2 (prev st) i' j')"
        using ok nz by (auto simp: cell_ok_def)
      ultimately have "nat (fst (get2 (prev st) i' j')) \<noteq> i" by linarith
      then show ?thesis using ok False unfolding cell_ok_def d p by auto
    qed
  qed
  have unproc: "dp_length (get2 (dp ?st) i' j') = 0"
    if "i' \<le> length A" "j' \<le> length B" "\<not> processed i (Suc j) i' j'" for i' j'
  proof -
    have "\<not> (i' = i \<and> j' = j)" using that new by (auto simp: processed_def)
    then show ?thesis using inv that unfolding d by (auto simp: tab_inv_def)
  qed
  show ?thesis
    unfolding tab_inv_def using wf_set2[OF wfd] wf_set2[OF wfp] cell unproc by simp
qed

lemma relax_tab_inv:
  assumes inv: "tab_inv A B st i (Suc j)"
    and ij: "i \<le> length A" "j \<le> length B"
    and src: "si \<le> i" "sj \<le> j" "si \<noteq> i \<or> sj \<noteq> j"
  shows "tab_inv A B (relax G i j si sj st) i (Suc j)"
proof (cases "dp_gaps (get2 (dp st) si sj) < G
         \<and> dp_length (get2 (dp st) i j) < dp_length (get2 (dp st) si sj)")
  case False
  then have "relax G i j si sj st = st" by (auto simp: relax_def)
  then show ?thesis using inv by simp
next
  case True
  have b: "si \<le> length A" "sj \<le> length B" using ij src by auto
  have ok: "cell_ok A B st si sj" and cur: "cell_ok A B st i j"
    using inv b ij by (auto simp: tab_inv_def)
  have nonneg: "0 \<le> dp_length (get2 (dp st) i j)" using cur by (auto simp: cell_ok_def)
  then have pos: "0 < dp_length (get2 (dp st) si sj)" using True by linarith
  obtain a b where ab: "get2 (prev st) si sj = (a, b)" by (cases "get2 (prev st) si sj")
  have facts: "0 \<le> a" "a < int si" "0 \<le> b" "b < int sj" "A ! nat a = B ! nat b"
    "dp_length (get2 (dp st) (nat a) (nat b)) = dp_length (get2 (dp st) si sj) - 1"
    using ok pos ab by (auto simp: cell_ok_def)
  have "tab_inv A B (st\<lparr>dp := set2 (dp st) i j
          (DPEntry (dp_length (get2 (dp st) si sj)) (dp_gaps (get2 (dp st) si sj) + 1)),
        prev := set2 (prev st) i j (a, b)\<rparr>) i (Suc j)"
    using facts src pos by (intro tab_inv_write[OF inv ij]) auto
  then show ?thesis using True ab by (simp add: relax_def)
qed

lemma frame_relax:
  assumes "wf_tab nA nB (dp st)" "i \<le> nA" "j \<le> nB" "i' \<noteq> i \<or> j' \<noteq> j"
  shows "get2 (dp (relax G i j si sj st)) i' j' = get2 (dp st) i' j'"
  using assms get2_set2[OF assms(1-3)] by (auto simp: relax_def)

lemma relax_fields:
  "maxLength (relax G i j si sj st) = maxLength st"
  "endIndexA (relax G i j si sj st) = endIndexA st"
  "endIndexB (relax G i j si sj st) = endIndexB st"
  by (simp_all add: relax_def)


lemma tab_inv_cong:
  "dp st' = dp st \<Longrightarrow> prev st' = prev st \<Longrightarrow> tab_inv A B st' i j = tab_inv A B st i j"
  by (simp add: tab_inv_def cell_ok_def)

lemma lcs_cell_inv:
  assumes tinv: "tab_inv A B st i j" and minv: "max_inv A B st i j"
    and ij: "1 \<le> i" "i \<le> length A" "1 \<le> j" "j \<le> length B"
  shows "tab_inv A B (lcs_cell A B G i j st) i (Suc j) \<and> max_inv A B (lcs_cell A B G i j st) i (Suc j)"
proof -
  define mid where "mid =
       (if A ! (i - 1) = B ! (j - 1)
        then st\<lparr>dp := set2 (dp st) i j (DPEntry (dp_length (get2 (dp st) (i - 1) (j - 1)) + 1) 0),
                prev := set2 (prev st) i j (int i - 1, int j - 1)\<rparr>
        else relax G i j (i - 1) (j - 1) (relax G i j i (j - 1) (relax G i j (i - 1) j st)))"
  have cell: "lcs_cell A B G i j st = track_max i j mid"
    by (simp add: lcs_cell_def mid_def)
  have t0: "tab_inv A B st i (Suc j)" by (rule tab_inv_mono[OF tinv])
  have wfd: "wf_tab (length A) (length B) (dp st)" using tinv by (simp add: tab_inv_def)
  have b: "i \<le> length A" "j \<le> length B" using ij by auto
  have tmid: "tab_inv A B mid i (Suc j)"
  proof (cases "A ! (i - 1) = B ! (j - 1)")
    case True
    have "cell_ok A B st (i - 1) (j - 1)" using tinv ij by (auto simp: tab_inv_def)
    then have "0 \<le> dp_length (get2 (dp st) (i - 1) (j - 1))" by (auto simp: cell_ok_def)
    then have "tab_inv A B (st\<lparr>dp := set2 (dp st) i j (DPEntry (dp_length (get2 (dp st) (i - 1) (j - 1)) + 1) 0),
                prev := set2 (prev st) i j (int i - 1, int j - 1)\<rparr>) i (Suc j)"
      using True ij by (intro tab_inv_write[OF t0 b]) (auto simp: nat_diff_distrib)
    then show ?thesis using True by (simp add: mid_def)
  next
    case False
    have r1: "tab_inv A B (relax G i j (i - 1) j st) i (Suc j)"
      using relax_tab_inv[OF t0 b, of "i - 1" j G] ij by auto
    have r2: "tab_inv A B (relax G i j i (j - 1) (relax G i j (i - 1) j st)) i (Suc j)"
      using relax_tab_inv[OF r1 b, of i "j - 1" G] ij by auto
    have "tab_inv A B (relax G i j (i - 1) (j - 1) (relax G i j i (j - 1) (relax G i j (i - 1) j st))) i (Suc j)"
      using relax_tab_inv[OF r2 b, of "i - 1" "j - 1" G] ij by auto
    then show ?thesis using False by (simp add: mid_def)
  qed
  have frame: "get2 (dp mid) i' j' = get2 (dp st) i' j'" if "i' \<noteq> i \<or> j' \<noteq> j" for i' j'
  proof (cases "A ! (i - 1) = B ! (j - 1)")
    case True
    then show ?thesis using that get2_set2[OF wfd b] by (auto simp: mid_def)
  next
    case False
    have w1: "wf_tab (length A) (length B) (dp (relax G i j (i - 1) j st))"
      using wfd by (auto simp: relax_def wf_set2)
    then have w2: "wf_tab (length A) (length B) (dp (relax G i j i (j - 1) (relax G i j (i - 1) j st)))"
      by (auto simp: relax_def wf_set2)
    show ?thesis
      using False that frame_relax[OF wfd b that] frame_relax[OF w1 b that] frame_relax[OF w2 b that]
      by (simp add: mid_def)
  qed
  have fields: "maxLength mid = maxLength st" "endIndexA mid = endIndexA st" "endIndexB mid = endIndexB st"
    by (simp_all add: mid_def relax_fields)
  have t: "tab_inv A B (track_max i j mid) i (Suc j)"
    using tmid tab_inv_cong[of "track_max i j mid" mid] by (simp add: track_max_def)
  have m: "max_inv A B (track_max i j mid) i (Suc j)"
  proof (cases "dp_length (get2 (dp mid) i j) \<ge> maxLength mid")
    case True
    then have eq: "track_max i j mid =
        mid\<lparr>maxLength := dp_length (get2 (dp mid) i j), endIndexA := int i, endIndexB := int j\<rparr>"
      by (simp add: track_max_def)
    have le: "dp_length (get2 (dp mid) i' j') \<le> dp_length (get2 (dp mid) i j)"
      if "i' \<le> length A" "j' \<le> length B" "processed i (Suc j) i' j'" for i' j'
    proof (cases "i' = i \<and> j' = j")
      case True then show ?thesis by simp
    next
      case False
      then have "processed i j i' j'" using that by (auto simp: processed_def)
      then have "dp_length (get2 (dp st) i' j') \<le> maxLength st"
        using minv that by (auto simp: max_inv_def)
      then show ?thesis using frame[of i' j'] False True fields by auto
    qed
    have "0 \<le> dp_length (get2 (dp mid) i j)" using True minv fields by (auto simp: max_inv_def)
    then show ?thesis unfolding eq max_inv_def using le ij by (auto simp: processed_def)
  next
    case False
    then have eq: "track_max i j mid = mid" by (simp add: track_max_def)
    have le: "dp_length (get2 (dp mid) i' j') \<le> maxLength mid"
      if "i' \<le> length A" "j' \<le> length B" "processed i (Suc j) i' j'" for i' j'
    proof (cases "i' = i \<and> j' = j")
      case True then show ?thesis using False by simp
    next
      case ne: False
      then have "processed i j i' j'" using that by (auto simp: processed_def)
      then have "dp_length (get2 (dp st) i' j') \<le> maxLength st"
        using minv that by (auto simp: max_inv_def)
      then show ?thesis using frame[of i' j'] ne fields by auto
    qed
    have e: "maxLength mid = 0 \<or>
      (0 \<le> endIndexA mid \<and> 0 \<le> endIndexB mid \<and>
       nat (endIndexA mid) \<le> length A \<and> nat (endIndexB mid) \<le> length B \<and>
       processed i (Suc j) (nat (endIndexA mid)) (nat (endIndexB mid)) \<and>
       dp_length (get2 (dp mid) (nat (endIndexA mid)) (nat (endIndexB mid))) = maxLength mid)"
    proof (cases "maxLength st = 0")
      case True then show ?thesis using fields by simp
    next
      case nz: False
      then have p: "processed i j (nat (endIndexA st)) (nat (endIndexB st))"
        and r: "0 \<le> endIndexA st" "0 \<le> endIndexB st"
          "nat (endIndexA st) \<le> length A" "nat (endIndexB st) \<le> length B"
          "dp_length (get2 (dp st) (nat (endIndexA st)) (nat (endIndexB st))) = maxLength st"
        using minv by (auto simp: max_inv_def)
      from p have ne: "nat (endIndexA st) \<noteq> i \<or> nat (endIndexB st) \<noteq> j"
        and p': "processed i (Suc j) (nat (endIndexA st)) (nat (endIndexB st))"
        by (auto simp: processed_def)
      show ?thesis using frame[OF ne] r p' fields by simp
    qed
    have "0 \<le> maxLength mid" using minv fields by (simp add: max_inv_def)
    then show ?thesis unfolding eq max_inv_def using le e by blast
  qed
  show ?thesis using t m cell by simp
qed


lemma lcs_cell_frame:
  assumes wfd: "wf_tab nA nB (dp st)" and wfp: "wf_tab nA nB (prev st)"
    and ij: "i \<le> nA" "j \<le> nB" and ne: "i' \<noteq> i \<or> j' \<noteq> j"
  shows "get2 (dp (lcs_cell A B G i j st)) i' j' = get2 (dp st) i' j'"
    and "get2 (prev (lcs_cell A B G i j st)) i' j' = get2 (prev st) i' j'"
proof -
  have r: "wf_tab nA nB (dp s) \<and> wf_tab nA nB (prev s) \<Longrightarrow>
        wf_tab nA nB (dp (relax G i j si sj s)) \<and> wf_tab nA nB (prev (relax G i j si sj s)) \<and>
        get2 (dp (relax G i j si sj s)) i' j' = get2 (dp s) i' j' \<and>
        get2 (prev (relax G i j si sj s)) i' j' = get2 (prev s) i' j'" for s si sj
    using ne ij by (auto simp: relax_def wf_set2 get2_set2[where nA = nA and nB = nB])
  have t: "dp (track_max i j s) = dp s" "prev (track_max i j s) = prev s" for s
    by (simp_all add: track_max_def)
  have w: "wf_tab nA nB (dp st) \<and> wf_tab nA nB (prev st)" using wfd wfp by simp
  note r1 = r[OF w, of "i - 1" j]
  note r2 = r[OF conjI[OF conjunct1[OF r1] conjunct1[OF conjunct2[OF r1]]], of i "j - 1"]
  note r3 = r[OF conjI[OF conjunct1[OF r2] conjunct1[OF conjunct2[OF r2]]], of "i - 1" "j - 1"]
  show "get2 (dp (lcs_cell A B G i j st)) i' j' = get2 (dp st) i' j'"
    unfolding lcs_cell_def t using r1 r2 r3 ne ij wfd
    by (auto simp: get2_set2[where nA = nA and nB = nB])
  show "get2 (prev (lcs_cell A B G i j st)) i' j' = get2 (prev st) i' j'"
    unfolding lcs_cell_def t using r1 r2 r3 ne ij wfp
    by (auto simp: get2_set2[where nA = nA and nB = nB])
qed

lemma lcs_cell_match:
  assumes wfd: "wf_tab nA nB (dp st)" and wfp: "wf_tab nA nB (prev st)"
    and ij: "1 \<le> i" "i \<le> nA" "1 \<le> j" "j \<le> nB" and m: "A ! (i - 1) = B ! (j - 1)"
  shows "get2 (prev (lcs_cell A B G i j st)) i j = (int i - 1, int j - 1)"
    and "dp_length (get2 (dp (lcs_cell A B G i j st)) i j) = dp_length (get2 (dp st) (i - 1) (j - 1)) + 1"
  using assms
  by (simp_all add: lcs_cell_def track_max_def get2_set2[where nA = nA and nB = nB])

lemma lcs_cell_match_inv:
  assumes tinv: "tab_inv A B st i j" and minv: "match_inv A B st i j"
    and ij: "1 \<le> i" "i \<le> length A" "1 \<le> j" "j \<le> length B"
  shows "match_inv A B (lcs_cell A B G i j st) i (Suc j)"
  unfolding match_inv_def
proof (intro allI impI)
  fix i' j' assume b: "i' \<le> length A" "j' \<le> length B"
    and p: "processed i (Suc j) i' j' \<and> A ! (i' - 1) = B ! (j' - 1)"
  have wfd: "wf_tab (length A) (length B) (dp st)" and wfp: "wf_tab (length A) (length B) (prev st)"
    using tinv by (auto simp: tab_inv_def)
  note fr = lcs_cell_frame[OF wfd wfp ij(2,4)]
  show "get2 (prev (lcs_cell A B G i j st)) i' j' = (int i' - 1, int j' - 1) \<and>
        dp_length (get2 (dp (lcs_cell A B G i j st)) i' j') =
        dp_length (get2 (dp (lcs_cell A B G i j st)) (i' - 1) (j' - 1)) + 1"
  proof (cases "i' = i \<and> j' = j")
    case True
    have "i - 1 \<noteq> i" using ij by simp
    then have "get2 (dp (lcs_cell A B G i j st)) (i - 1) (j - 1) = get2 (dp st) (i - 1) (j - 1)"
      using fr(1)[of "i - 1" "j - 1"] by simp
    then show ?thesis using True p lcs_cell_match[OF wfd wfp ij, of A B G] by simp
  next
    case False
    then have pr: "processed i j i' j'" using p by (auto simp: processed_def)
    then have old: "get2 (prev st) i' j' = (int i' - 1, int j' - 1)"
      "dp_length (get2 (dp st) i' j') = dp_length (get2 (dp st) (i' - 1) (j' - 1)) + 1"
      using minv b p by (auto simp: match_inv_def)
    have "i' - 1 \<noteq> i" using pr by (auto simp: processed_def)
    then have "get2 (dp (lcs_cell A B G i j st)) (i' - 1) (j' - 1) = get2 (dp st) (i' - 1) (j' - 1)"
      using fr(1)[of "i' - 1" "j' - 1"] by simp
    moreover have "get2 (dp (lcs_cell A B G i j st)) i' j' = get2 (dp st) i' j'"
      "get2 (prev (lcs_cell A B G i j st)) i' j' = get2 (prev st) i' j'"
      using fr[of i' j'] False by auto
    ultimately show ?thesis using old by simp
  qed
qed

lemma lcs_cell_all:
  assumes "lcs_inv A B st i j" "1 \<le> i" "i \<le> length A" "1 \<le> j" "j \<le> length B"
  shows "lcs_inv A B (lcs_cell A B G i j st) i (Suc j)"
proof -
  have t: "tab_inv A B st i j" and m: "max_inv A B st i j" and d: "match_inv A B st i j"
    using assms(1) by (auto simp: lcs_inv_def)
  show ?thesis
    unfolding lcs_inv_def
    using lcs_cell_inv[OF t m assms(2-5), of G] lcs_cell_match_inv[OF t d assms(2-5), of G]
    by blast
qed

lemma lcs_row_inv:
  assumes "lcs_inv A B st i 1" "1 \<le> i" "i \<le> length A" "n \<le> length B"
  shows "lcs_inv A B (fold (lcs_cell A B G i) [1..<Suc n] st) i (Suc n)"
  using assms(4)
proof (induction n)
  case 0
  then show ?case using assms by simp
next
  case (Suc n)
  then have ih: "lcs_inv A B (fold (lcs_cell A B G i) [1..<Suc n] st) i (Suc n)" by auto
  have "[1..<Suc (Suc n)] = [1..<Suc n] @ [Suc n]" by simp
  then have "fold (lcs_cell A B G i) [1..<Suc (Suc n)] st =
      lcs_cell A B G i (Suc n) (fold (lcs_cell A B G i) [1..<Suc n] st)"
    by (simp only: fold_append fold_simps o_apply)
  then show ?case
    using lcs_cell_all[OF ih assms(2,3), of G] Suc.prems by simp
qed

lemma frontier_next_row:
  assumes "lcs_inv A B st i (Suc (length B))"
  shows "lcs_inv A B st (Suc i) 1"
proof -
  have eq: "processed (Suc i) 1 i' j' = processed i (Suc (length B)) i' j'" if "j' \<le> length B" for i' j'
    using that by (auto simp: processed_def)
  have "tab_inv A B st (Suc i) 1"
    using assms unfolding lcs_inv_def tab_inv_def using eq by auto
  moreover have "max_inv A B st (Suc i) 1"
    using assms unfolding lcs_inv_def max_inv_def using eq by (auto simp: processed_def)
  moreover have "match_inv A B st (Suc i) 1"
    using assms unfolding lcs_inv_def match_inv_def using eq by auto
  ultimately show ?thesis by (simp add: lcs_inv_def)
qed

lemma lcs_init_get:
  assumes "i \<le> nA" "j \<le> nB"
  shows "get2 (dp (lcs_init nA nB)) i j = DPEntry 0 0" "get2 (prev (lcs_init nA nB)) i j = (- 1, - 1)"
  using assms by (auto simp: lcs_init_def get2_def nth_Cons')

lemma lcs_init_wf:
  "wf_tab nA nB (dp (lcs_init nA nB))" "wf_tab nA nB (prev (lcs_init nA nB))"
  by (auto simp: lcs_init_def wf_tab_def nth_Cons')

lemma lcs_init_inv:
  "lcs_inv A B (lcs_init (length A) (length B)) 1 1"
proof -
  have "tab_inv A B (lcs_init (length A) (length B)) 1 1"
    unfolding tab_inv_def cell_ok_def using lcs_init_wf by (simp add: lcs_init_get)
  moreover have "maxLength (lcs_init (length A) (length B)) = 0" by (simp add: lcs_init_def)
  then have "max_inv A B (lcs_init (length A) (length B)) 1 1"
    unfolding max_inv_def by (simp add: lcs_init_get processed_def)
  moreover have "match_inv A B (lcs_init (length A) (length B)) 1 1"
    by (auto simp: match_inv_def processed_def)
  ultimately show ?thesis by (simp add: lcs_inv_def)
qed

lemma lcs_rows_inv:
  assumes "n \<le> length A"
  shows "lcs_inv A B (fold (lcs_row A B G) [1..<Suc n] (lcs_init (length A) (length B))) (Suc n) 1"
  using assms
proof (induction n)
  case 0
  then show ?case using lcs_init_inv by simp
next
  case (Suc n)
  let ?st = "fold (lcs_row A B G) [1..<Suc n] (lcs_init (length A) (length B))"
  have ih: "lcs_inv A B ?st (Suc n) 1" using Suc by auto
  have "[1..<Suc (Suc n)] = [1..<Suc n] @ [Suc n]" by simp
  then have step: "fold (lcs_row A B G) [1..<Suc (Suc n)] (lcs_init (length A) (length B)) =
      lcs_row A B G (Suc n) ?st"
    by (simp only: fold_append fold_simps o_apply)
  have b: "1 \<le> Suc n" "Suc n \<le> length A" "length B \<le> length B" using Suc.prems by auto
  have row: "lcs_row A B G (Suc n) ?st = fold (lcs_cell A B G (Suc n)) [1..<Suc (length B)] ?st"
    by (rule lcs_row_def)
  have "lcs_inv A B (lcs_row A B G (Suc n) ?st) (Suc n) (Suc (length B))"
    by (subst row) (rule lcs_row_inv[OF ih b])
  then show ?case unfolding step by (rule frontier_next_row)
qed

lemma lcs_fill_inv:
  "tab_inv A B (lcs_fill A B G) (Suc (length A)) 1"
  "max_inv A B (lcs_fill A B G) (Suc (length A)) 1"
  "match_inv A B (lcs_fill A B G) (Suc (length A)) 1"
  using lcs_rows_inv[of "length A" A B G] by (simp_all add: lcs_fill_def lcs_inv_def)

lemma backtrack_chain:
  assumes wf: "wf_tab (length A) (length B) (prev st)"
    and ok: "\<And>i j. i \<le> length A \<Longrightarrow> j \<le> length B \<Longrightarrow> cell_ok A B st i j"
  shows "i \<le> length A \<Longrightarrow> j \<le> length B \<Longrightarrow> dp_length (get2 (dp st) i j) = int L \<Longrightarrow>
     \<exists>ra rb. backtrack (prev st) (fst (get2 (prev st) i j)) (snd (get2 (prev st) i j)) accA accB
                = Some (accA @ ra, accB @ rb) \<and>
       length ra = L \<and> list_all2 (\<lambda>x y. A ! nat x = B ! nat y) ra rb \<and>
       (\<forall>x \<in> set ra. 0 \<le> x \<and> x < int i) \<and> (\<forall>y \<in> set rb. 0 \<le> y \<and> y < int j) \<and>
       sorted_wrt (>) ra \<and> sorted_wrt (>) rb"
proof (induction L arbitrary: i j accA accB)
  case 0
  then have "get2 (prev st) i j = (- 1, - 1)" using ok[of i j] by (auto simp: cell_ok_def)
  then show ?case by (simp add: backtrack.simps)
next
  case (Suc L)
  obtain a b where ab: "get2 (prev st) i j = (a, b)" by (cases "get2 (prev st) i j")
  have facts: "0 \<le> a" "a < int i" "0 \<le> b" "b < int j" "A ! nat a = B ! nat b"
    "dp_length (get2 (dp st) (nat a) (nat b)) = int L"
    using ok[of i j] Suc.prems ab by (auto simp: cell_ok_def)
  have rng: "nat a \<le> length A" "nat b \<le> length B" using facts Suc.prems by auto
  obtain ra rb where r:
    "backtrack (prev st) (fst (get2 (prev st) (nat a) (nat b))) (snd (get2 (prev st) (nat a) (nat b)))
        (accA @ [a]) (accB @ [b]) = Some ((accA @ [a]) @ ra, (accB @ [b]) @ rb)"
    "length ra = L" "list_all2 (\<lambda>x y. A ! nat x = B ! nat y) ra rb"
    "\<forall>x \<in> set ra. 0 \<le> x \<and> x < int (nat a)" "\<forall>y \<in> set rb. 0 \<le> y \<and> y < int (nat b)"
    "sorted_wrt (>) ra" "sorted_wrt (>) rb"
    using Suc.IH[OF rng facts(6), of "accA @ [a]" "accB @ [b]"] by blast
  have inr: "nat a < length (prev st)" "nat b < length (prev st ! nat a)"
    using wf rng by (auto simp: wf_tab_def)
  have "backtrack (prev st) a b accA accB = Some (accA @ (a # ra), accB @ (b # rb))"
    using r(1) facts inr by (subst backtrack.simps) simp
  moreover have "length (a # ra) = Suc L" using r by simp
  moreover have "list_all2 (\<lambda>x y. A ! nat x = B ! nat y) (a # ra) (b # rb)" using r facts by simp
  moreover have "\<forall>x \<in> set (a # ra). 0 \<le> x \<and> x < int i" using r(4) facts by auto
  moreover have "\<forall>y \<in> set (b # rb). 0 \<le> y \<and> y < int j" using r(5) facts by auto
  moreover have "sorted_wrt (>) (a # ra)" "sorted_wrt (>) (b # rb)" using r facts by auto
  ultimately show ?case unfolding ab fst_conv snd_conv by blast
qed


lemma lcs_fill_max:
  assumes "i \<le> length A" "j \<le> length B"
  shows "dp_length (get2 (dp (lcs_fill A B G)) i j) \<le> maxLength (lcs_fill A B G)"
proof (cases "processed (Suc (length A)) 1 i j")
  case True
  then show ?thesis using lcs_fill_inv(2)[of A B G] assms by (auto simp: max_inv_def)
next
  case False
  then have "dp_length (get2 (dp (lcs_fill A B G)) i j) = 0"
    using lcs_fill_inv(1)[of A B G] assms by (auto simp: tab_inv_def)
  then show ?thesis using lcs_fill_inv(2)[of A B G] by (simp add: max_inv_def)
qed

lemma lcs_fill_attained:
  "\<exists>i \<le> length A. \<exists>j \<le> length B. dp_length (get2 (dp (lcs_fill A B G)) i j) = maxLength (lcs_fill A B G)"
proof (cases "maxLength (lcs_fill A B G) = 0")
  case True
  have "dp_length (get2 (dp (lcs_fill A B G)) 0 0) = 0"
    using lcs_fill_inv(1)[of A B G] by (auto simp: tab_inv_def processed_def)
  then show ?thesis using True by auto
next
  case False
  then show ?thesis using lcs_fill_inv(2)[of A B G] unfolding max_inv_def by blast
qed

lemma lcs_indicies_sound:
  "\<exists>IA IB. lcs_indicies A B G = Some (IA, IB) \<and>
     list_all2 (\<lambda>x y. A ! nat x = B ! nat y) IA IB \<and>
     (\<forall>x \<in> set IA. 0 \<le> x \<and> x < int (length A)) \<and>
     (\<forall>y \<in> set IB. 0 \<le> y \<and> y < int (length B)) \<and>
     sorted_wrt (<) IA \<and> sorted_wrt (<) IB \<and>
     int (length IA) = maxLength (lcs_fill A B G)"
proof (cases "maxLength (lcs_fill A B G) = 0")
  case True
  then show ?thesis by (simp add: lcs_indicies_def)
next
  case False
  let ?st = "lcs_fill A B G"
  let ?i = "nat (endIndexA ?st)" and ?j = "nat (endIndexB ?st)"
  have tinv: "tab_inv A B ?st (Suc (length A)) 1" and minv: "max_inv A B ?st (Suc (length A)) 1"
    by (rule lcs_fill_inv)+
  have e: "?i \<le> length A" "?j \<le> length B" "dp_length (get2 (dp ?st) ?i ?j) = maxLength ?st"
    "0 \<le> maxLength ?st" "0 \<le> endIndexA ?st" "0 \<le> endIndexB ?st"
    using minv False by (auto simp: max_inv_def)
  define L where "L = nat (maxLength ?st)"
  have len: "dp_length (get2 (dp ?st) ?i ?j) = int L" using e by (simp add: L_def)
  have wf: "wf_tab (length A) (length B) (prev ?st)" using tinv by (simp add: tab_inv_def)
  have ok: "\<And>i j. i \<le> length A \<Longrightarrow> j \<le> length B \<Longrightarrow> cell_ok A B ?st i j"
    using tinv by (simp add: tab_inv_def)
  obtain ra rb where r:
    "backtrack (prev ?st) (fst (get2 (prev ?st) ?i ?j)) (snd (get2 (prev ?st) ?i ?j)) [] []
       = Some ([] @ ra, [] @ rb)"
    "length ra = L" "list_all2 (\<lambda>x y. A ! nat x = B ! nat y) ra rb"
    "\<forall>x \<in> set ra. 0 \<le> x \<and> x < int ?i" "\<forall>y \<in> set rb. 0 \<le> y \<and> y < int ?j"
    "sorted_wrt (>) ra" "sorted_wrt (>) rb"
    using backtrack_chain[OF wf ok e(1,2) len, of "[]" "[]"] by blast
  have inr: "nat (endIndexA ?st) < length (prev ?st)"
    "nat (endIndexB ?st) < length (prev ?st ! nat (endIndexA ?st))"
    using wf e(1,2) by (auto simp: wf_tab_def)
  have res: "lcs_indicies A B G = Some (rev ra, rev rb)"
    using False r(1) e(5,6) inr by (simp add: lcs_indicies_def)
  have "list_all2 (\<lambda>x y. A ! nat x = B ! nat y) (rev ra) (rev rb)" using r(3) by simp
  moreover have "\<forall>x \<in> set (rev ra). 0 \<le> x \<and> x < int (length A)"
  proof
    fix x assume "x \<in> set (rev ra)"
    then have "0 \<le> x" "x < int ?i" using r(4) by auto
    moreover have "int ?i \<le> int (length A)" using e(1) by (simp only: of_nat_le_iff)
    ultimately show "0 \<le> x \<and> x < int (length A)" by (simp only: order_less_le_trans)
  qed
  moreover have "\<forall>y \<in> set (rev rb). 0 \<le> y \<and> y < int (length B)"
  proof
    fix y assume "y \<in> set (rev rb)"
    then have "0 \<le> y" "y < int ?j" using r(5) by auto
    moreover have "int ?j \<le> int (length B)" using e(2) by (simp only: of_nat_le_iff)
    ultimately show "0 \<le> y \<and> y < int (length B)" by (simp only: order_less_le_trans)
  qed
  moreover have "sorted_wrt (<) (rev ra)" "sorted_wrt (<) (rev rb)"
    using r(6,7) by (simp_all add: sorted_wrt_rev)
  moreover have "int (length (rev ra)) = maxLength ?st" using r(2) e(4) by (simp add: L_def)
  ultimately show ?thesis using res by blast
qed

text \<open>
  Claim C1. For all word lists \<open>A\<close>, \<open>B\<close> and every gap budget \<open>G\<close>, \<open>lcs_indicies_\<close> returns
  two index lists of the same length, every pair of which indexes equal strings of \<open>A\<close> and
  \<open>B\<close> (inside both lists); both lists are strictly ascending, and their length is the
  value of \<open>maxLength\<close> after the table is filled, which is the largest \<open>length\<close> stored in
  any cell of \<open>dp\<close>.
\<close>

theorem lcs_indicies_correct:
  "\<exists>IA IB. lcs_indicies A B G = Some (IA, IB) \<and>
     length IA = length IB \<and>
     (\<forall>k < length IA. 0 \<le> IA ! k \<and> nat (IA ! k) < length A \<and> 0 \<le> IB ! k \<and> nat (IB ! k) < length B \<and>
                      A ! nat (IA ! k) = B ! nat (IB ! k)) \<and>
     sorted_wrt (<) IA \<and> sorted_wrt (<) IB \<and>
     int (length IA) = maxLength (lcs_fill A B G) \<and>
     (\<forall>i \<le> length A. \<forall>j \<le> length B.
        dp_length (get2 (dp (lcs_fill A B G)) i j) \<le> maxLength (lcs_fill A B G)) \<and>
     (\<exists>i \<le> length A. \<exists>j \<le> length B.
        dp_length (get2 (dp (lcs_fill A B G)) i j) = maxLength (lcs_fill A B G))"
proof -
  obtain IA IB where s: "lcs_indicies A B G = Some (IA, IB)"
     "list_all2 (\<lambda>x y. A ! nat x = B ! nat y) IA IB"
     "\<forall>x \<in> set IA. 0 \<le> x \<and> x < int (length A)"
     "\<forall>y \<in> set IB. 0 \<le> y \<and> y < int (length B)"
     "sorted_wrt (<) IA" "sorted_wrt (<) IB"
     "int (length IA) = maxLength (lcs_fill A B G)"
    using lcs_indicies_sound[of A B G] by blast
  have len: "length IA = length IB" using s(2) by (rule list_all2_lengthD)
  have idx: "0 \<le> IA ! k \<and> nat (IA ! k) < length A \<and> 0 \<le> IB ! k \<and> nat (IB ! k) < length B \<and>
                      A ! nat (IA ! k) = B ! nat (IB ! k)" if "k < length IA" for k
  proof -
    have "IA ! k \<in> set IA" "IB ! k \<in> set IB" using that len by auto
    then have "0 \<le> IA ! k \<and> IA ! k < int (length A)" "0 \<le> IB ! k \<and> IB ! k < int (length B)"
      using s(3,4) by blast+
    moreover have "A ! nat (IA ! k) = B ! nat (IB ! k)" using s(2) that by (simp add: list_all2_conv_all_nth)
    ultimately show ?thesis by auto
  qed
  show ?thesis using s(1,5,6,7) len idx lcs_fill_max[of _ A _ B G] lcs_fill_attained[of A B G] by blast
qed

theorem lcs_indicies_correct_witness:
  "lcs_indicies [''a'', ''b'', ''c''] [''a'', ''c''] 4 = Some ([0, 2], [0, 1]) \<and>
   maxLength (lcs_fill [''a'', ''b'', ''c''] [''a'', ''c''] 4) = 2"
proof -
  have ev: "lcs_indicies [''a'', ''b'', ''c''] [''a'', ''c''] 4 = Some ([0, 2], [0, 1])"
    by code_simp
  obtain IA IB where "lcs_indicies [''a'', ''b'', ''c''] [''a'', ''c''] 4 = Some (IA, IB)"
    "int (length IA) = maxLength (lcs_fill [''a'', ''b'', ''c''] [''a'', ''c''] 4)"
    using lcs_indicies_correct[of "[''a'', ''b'', ''c'']" "[''a'', ''c'']" 4] by blast
  with ev show ?thesis by simp
qed

section \<open>The run of the planner, and its anchors\<close>

lemma comparable_loop_ok:
  assumes "length c = length s" "length pre = length c + n"
    and "\<forall>k < length c. 0 \<le> s ! k \<and> s ! k \<le> int n \<and> k + nat (s ! k) < length pre \<and>
        get_comparable (pre ! (k + nat (s ! k))) = c ! k \<and> c ! k \<noteq> []"
    and "\<forall>k k'. k < k' \<and> k' < length c \<longrightarrow> s ! k \<le> s ! k'"
  shows "case comparable_loop ws c s n of (c', s') \<Rightarrow> proj_ok (pre @ ws) c' s'"
  using assms
proof (induction ws arbitrary: pre c s n)
  case Nil
  then show ?case by (auto simp: proj_ok_def)
next
  case (Cons w ws)
  show ?case
  proof (cases "get_comparable w = []")
    case True
    have "case comparable_loop ws c s (Suc n) of (c', s') \<Rightarrow> proj_ok ((pre @ [w]) @ ws) c' s'"
    proof (rule Cons.IH)
      show "length c = length s" by (rule Cons.prems(1))
      show "length (pre @ [w]) = length c + Suc n" using Cons.prems(2) by simp
      show "\<forall>k<length c. 0 \<le> s ! k \<and> s ! k \<le> int (Suc n) \<and> k + nat (s ! k) < length (pre @ [w]) \<and>
          get_comparable ((pre @ [w]) ! (k + nat (s ! k))) = c ! k \<and> c ! k \<noteq> []"
        using Cons.prems(3) by (auto simp: nth_append)
      show "\<forall>k k'. k < k' \<and> k' < length c \<longrightarrow> s ! k \<le> s ! k'" by (rule Cons.prems(4))
    qed
    then show ?thesis using True by simp
  next
    case False
    have "case comparable_loop ws (c @ [get_comparable w]) (s @ [int n]) n of
            (c', s') \<Rightarrow> proj_ok ((pre @ [w]) @ ws) c' s'"
    proof (rule Cons.IH)
      show "length (c @ [get_comparable w]) = length (s @ [int n])" using Cons.prems(1) by simp
      show "length (pre @ [w]) = length (c @ [get_comparable w]) + n" using Cons.prems(2) by simp
      show "\<forall>k<length (c @ [get_comparable w]). 0 \<le> (s @ [int n]) ! k \<and> (s @ [int n]) ! k \<le> int n \<and>
          k + nat ((s @ [int n]) ! k) < length (pre @ [w]) \<and>
          get_comparable ((pre @ [w]) ! (k + nat ((s @ [int n]) ! k))) = (c @ [get_comparable w]) ! k \<and>
          (c @ [get_comparable w]) ! k \<noteq> []"
      proof (intro allI impI)
        fix k assume k: "k < length (c @ [get_comparable w])"
        show "0 \<le> (s @ [int n]) ! k \<and> (s @ [int n]) ! k \<le> int n \<and>
          k + nat ((s @ [int n]) ! k) < length (pre @ [w]) \<and>
          get_comparable ((pre @ [w]) ! (k + nat ((s @ [int n]) ! k))) = (c @ [get_comparable w]) ! k \<and>
          (c @ [get_comparable w]) ! k \<noteq> []"
        proof (cases "k < length c")
          case True
          then show ?thesis using Cons.prems(1,3) by (auto simp: nth_append)
        next
          case f: False
          then have "k = length c" using k by simp
          then show ?thesis using Cons.prems(1,2) False by (simp add: nth_append)
        qed
      qed
      show "\<forall>k k'. k < k' \<and> k' < length (c @ [get_comparable w]) \<longrightarrow> (s @ [int n]) ! k \<le> (s @ [int n]) ! k'"
      proof (intro allI impI)
        fix k k' assume a: "k < k' \<and> k' < length (c @ [get_comparable w])"
        show "(s @ [int n]) ! k \<le> (s @ [int n]) ! k'"
        proof (cases "k' < length c")
          case True
          then show ?thesis using a Cons.prems(1,4) by (auto simp: nth_append)
        next
          case False
          then have "k' = length c" "k < length c" using a by auto
          then show ?thesis using Cons.prems(1,3) by (auto simp: nth_append)
        qed
      qed
    qed
    then show ?thesis using False by simp
  qed
qed

lemma comparable_words_ok:
  "comparable_words ws = (c, s) \<Longrightarrow> proj_ok ws c s"
  using comparable_loop_ok[of "[]" "[]" "[]" 0 ws] by (simp add: comparable_words_def)

lemma word_rules_ok:
  assumes "word_rules old new nextA nextB curA curB ops = (ops', a, b)"
    and "curA \<le> nextA" "curB \<le> nextB" "curA \<noteq> nextA \<or> curB \<noteq> nextB"
  shows "curA \<le> a \<and> a \<le> nextA \<and> curB \<le> b \<and> b \<le> nextB \<and> (curA < a \<or> curB < b) \<and>
         (\<exists>more. ops' = ops @ more \<and> (\<forall>op \<in> set more. \<not> is_matched op))"
  using assms by (auto simp: word_rules_def split: if_splits)

lemma walk_ok:
  assumes "0 \<le> curA" "curA \<le> nextA" "nextA \<le> int (length old)"
    and "0 \<le> curB" "curB \<le> nextB" "nextB \<le> int (length new)"
  shows "\<exists>more. walk old new nextA nextB curA curB ops = Inr (ops @ more) \<and>
           (\<forall>op \<in> set more. \<not> is_matched op)"
  using assms
proof (induction old new nextA nextB curA curB ops rule: walk.induct)
  case (1 old new nextA nextB curA curB ops)
  show ?case
  proof (cases "curA \<noteq> nextA \<or> curB \<noteq> nextB")
    case False
    then show ?thesis by (subst walk.simps) simp
  next
    case True
    have rng: "\<not> ((curA \<noteq> nextA \<and> \<not> in_range old curA) \<or> (curB \<noteq> nextB \<and> \<not> in_range new curB))"
      using "1.prems" by (auto simp: in_range_def)
    consider (r01) "curA \<noteq> nextA \<and> curB \<noteq> nextB \<and> is_segment (elem_at old curA) \<and> is_segment (elem_at new curB)"
      | (r02) "\<not> (curA \<noteq> nextA \<and> curB \<noteq> nextB \<and> is_segment (elem_at old curA) \<and> is_segment (elem_at new curB))"
              "curA \<noteq> nextA \<and> is_segment (elem_at old curA)"
      | (r03) "\<not> (curA \<noteq> nextA \<and> curB \<noteq> nextB \<and> is_segment (elem_at old curA) \<and> is_segment (elem_at new curB))"
              "\<not> (curA \<noteq> nextA \<and> is_segment (elem_at old curA))"
              "curB \<noteq> nextB \<and> is_segment (elem_at new curB)"
      | (rw) "\<not> (curA \<noteq> nextA \<and> curB \<noteq> nextB \<and> is_segment (elem_at old curA) \<and> is_segment (elem_at new curB))"
              "\<not> (curA \<noteq> nextA \<and> is_segment (elem_at old curA))"
              "\<not> (curB \<noteq> nextB \<and> is_segment (elem_at new curB))"
      by blast
    then show ?thesis
    proof cases
      case r01
      obtain ops' a b where wr: "word_rules old new nextA nextB curA curB (ops @ [MERGE_SEGMENTS curA curB]) = (ops', a, b)"
        by (metis prod_cases3)
      from word_rules_ok[OF wr] "1.prems" True obtain m1 where
        ab: "curA \<le> a" "a \<le> nextA" "curB \<le> b" "b \<le> nextB"
        and m1: "ops' = (ops @ [MERGE_SEGMENTS curA curB]) @ m1" "\<forall>op \<in> set m1. \<not> is_matched op"
        by auto
      have "\<exists>more. walk old new nextA nextB a b ops' = Inr (ops' @ more) \<and> (\<forall>op \<in> set more. \<not> is_matched op)"
        using "1.IH"(1)[OF True rng r01 wr[symmetric] refl] ab "1.prems" by simp
      then obtain m2 where m2: "walk old new nextA nextB a b ops' = Inr (ops' @ m2)" "\<forall>op \<in> set m2. \<not> is_matched op"
        by blast
      have "walk old new nextA nextB curA curB ops = walk old new nextA nextB a b ops'"
        using True rng r01 wr by (subst walk.simps) auto
      then have "walk old new nextA nextB curA curB ops = Inr (ops @ ([MERGE_SEGMENTS curA curB] @ m1 @ m2))"
        using m2 m1 by simp
      moreover have "\<forall>op \<in> set ([MERGE_SEGMENTS curA curB] @ m1 @ m2). \<not> is_matched op"
        using m1 m2 by auto
      ultimately show ?thesis by blast
    next
      case r02
      have "\<exists>more. walk old new nextA nextB (curA + 1) curB (ops @ [DECREMENT curA, DECREMENT curA])
               = Inr ((ops @ [DECREMENT curA, DECREMENT curA]) @ more) \<and> (\<forall>op \<in> set more. \<not> is_matched op)"
        using "1.IH"(2)[OF True rng r02] "1.prems" r02 by simp
      then obtain m2 where m2: "walk old new nextA nextB (curA + 1) curB (ops @ [DECREMENT curA, DECREMENT curA])
               = Inr ((ops @ [DECREMENT curA, DECREMENT curA]) @ m2)" "\<forall>op \<in> set m2. \<not> is_matched op"
        by blast
      have "walk old new nextA nextB curA curB ops =
            walk old new nextA nextB (curA + 1) curB (ops @ [DECREMENT curA, DECREMENT curA])"
        using True rng r02 by (subst walk.simps) auto
      then have "walk old new nextA nextB curA curB ops = Inr (ops @ ([DECREMENT curA, DECREMENT curA] @ m2))"
        using m2 by simp
      moreover have "\<forall>op \<in> set ([DECREMENT curA, DECREMENT curA] @ m2). \<not> is_matched op"
        using m2 by auto
      ultimately show ?thesis by blast
    next
      case r03
      have "\<exists>more. walk old new nextA nextB curA (curB + 1) (ops @ [INSERT curA curB])
               = Inr ((ops @ [INSERT curA curB]) @ more) \<and> (\<forall>op \<in> set more. \<not> is_matched op)"
        using "1.IH"(3)[OF True rng r03] "1.prems" r03 by simp
      then obtain m2 where m2: "walk old new nextA nextB curA (curB + 1) (ops @ [INSERT curA curB])
               = Inr ((ops @ [INSERT curA curB]) @ m2)" "\<forall>op \<in> set m2. \<not> is_matched op"
        by blast
      have "walk old new nextA nextB curA curB ops =
            walk old new nextA nextB curA (curB + 1) (ops @ [INSERT curA curB])"
        using True rng r03 by (subst walk.simps) auto
      then have "walk old new nextA nextB curA curB ops = Inr (ops @ ([INSERT curA curB] @ m2))"
        using m2 by simp
      moreover have "\<forall>op \<in> set ([INSERT curA curB] @ m2). \<not> is_matched op"
        using m2 by auto
      ultimately show ?thesis by blast
    next
      case rw
      obtain ops' a b where wr: "word_rules old new nextA nextB curA curB ops = (ops', a, b)"
        by (metis prod_cases3)
      from word_rules_ok[OF wr] "1.prems" True obtain m1 where
        ab: "curA \<le> a" "a \<le> nextA" "curB \<le> b" "b \<le> nextB"
        and m1: "ops' = ops @ m1" "\<forall>op \<in> set m1. \<not> is_matched op"
        by auto
      have "\<exists>more. walk old new nextA nextB a b ops' = Inr (ops' @ more) \<and> (\<forall>op \<in> set more. \<not> is_matched op)"
        using "1.IH"(4)[OF True rng rw wr[symmetric] refl] ab "1.prems" by simp
      then obtain m2 where m2: "walk old new nextA nextB a b ops' = Inr (ops' @ m2)" "\<forall>op \<in> set m2. \<not> is_matched op"
        by blast
      have "walk old new nextA nextB curA curB ops = walk old new nextA nextB a b ops'"
        using True rng rw wr by (subst walk.simps) auto
      then have "walk old new nextA nextB curA curB ops = Inr (ops @ (m1 @ m2))"
        using m2 m1 by simp
      moreover have "\<forall>op \<in> set (m1 @ m2). \<not> is_matched op"
        using m1 m2 by auto
      ultimately show ?thesis by blast
    qed
  qed
qed

lemma abs_facts:
  assumes "proj_ok ws c s" "0 \<le> x" "nat x < length c"
  shows "in_range s x" "0 \<le> x + elem_at s x" "x + elem_at s x < int (length ws)"
        "get_comparable (ws ! nat (x + elem_at s x)) = c ! nat x" "c ! nat x \<noteq> []"
proof -
  have k: "0 \<le> s ! nat x" "nat x + nat (s ! nat x) < length ws"
    "get_comparable (ws ! (nat x + nat (s ! nat x))) = c ! nat x" "c ! nat x \<noteq> []"
    and len: "length c = length s"
    using assms(1,3) by (auto simp: proj_ok_def)
  show "in_range s x" using assms(2,3) len by (simp add: in_range_def)
  show "0 \<le> x + elem_at s x" using k(1) assms(2) by (simp add: elem_at_def)
  show "x + elem_at s x < int (length ws)" using k(1,2) assms(2) by (simp add: elem_at_def)
  have "nat (x + elem_at s x) = nat x + nat (s ! nat x)"
    using k(1) assms(2) by (simp add: elem_at_def nat_add_distrib)
  then show "get_comparable (ws ! nat (x + elem_at s x)) = c ! nat x" using k(3) by simp
  show "c ! nat x \<noteq> []" by (rule k(4))
qed

lemma abs_mono:
  assumes "proj_ok ws c s" "0 \<le> x" "x < y" "nat y < length c"
  shows "x + elem_at s x < y + elem_at s y"
proof -
  have "nat x < nat y" using assms(2,3) by simp
  then have "s ! nat x \<le> s ! nat y" using assms(1,4) by (auto simp: proj_ok_def)
  then show ?thesis using assms(3) by (simp add: elem_at_def)
qed

lemma anchors_loop_ok:
  assumes pA: "proj_ok old cA sA" and pB: "proj_ok new cB sB"
    and len: "length IA = length IB"
    and sA: "sorted_wrt (<) IA" and sB: "sorted_wrt (<) IB"
    and rA: "\<forall>x \<in> set IA. 0 \<le> x \<and> x < int (length cA)"
    and rB: "\<forall>y \<in> set IB. 0 \<le> y \<and> y < int (length cB)"
  shows "1 \<le> i \<Longrightarrow> i \<le> length IA \<Longrightarrow>
     \<exists>more. anchors_loop old new IA IB sA sB i (IA ! (i - 1)) (IB ! (i - 1)) ops
              = (Some OutOfRange, ops @ more) \<and>
       length (filter is_matched more) = Suc (length IA) - i \<and>
       (\<forall>a b. MATCHED_WORD a b \<in> set more \<longrightarrow>
          (\<exists>k < length IA. a = IA ! k + elem_at sA (IA ! k) \<and> b = IB ! k + elem_at sB (IB ! k)))"
proof (induction "length IA - i" arbitrary: i ops)
  case 0
  then have i: "i = length IA" by simp
  let ?pa = "IA ! (i - 1)" and ?pb = "IB ! (i - 1)"
  have mem: "?pa \<in> set IA" "?pb \<in> set IB" using "0.prems" len by auto
  then have r: "0 \<le> ?pa" "nat ?pa < length cA" "0 \<le> ?pb" "nat ?pb < length cB"
    using rA rB by auto
  note fa = abs_facts[OF pA r(1,2)] and fb = abs_facts[OF pB r(3,4)]
  let ?m = "MATCHED_WORD (?pa + elem_at sA ?pa) (?pb + elem_at sB ?pb)"
  obtain more where m: "walk old new (int (length old)) (int (length new))
        (?pa + elem_at sA ?pa + 1) (?pb + elem_at sB ?pb + 1) (ops @ [?m])
      = Inr ((ops @ [?m]) @ more)"
     "\<forall>op \<in> set more. \<not> is_matched op"
  proof -
    have w: "0 \<le> ?pa + elem_at sA ?pa + 1" "?pa + elem_at sA ?pa + 1 \<le> int (length old)"
      "int (length old) \<le> int (length old)"
      "0 \<le> ?pb + elem_at sB ?pb + 1" "?pb + elem_at sB ?pb + 1 \<le> int (length new)"
      "int (length new) \<le> int (length new)"
      using fa(2,3) fb(2,3) by linarith+
    show ?thesis using walk_ok[OF w, of "ops @ [?m]"] that by blast
  qed
  have "anchors_loop old new IA IB sA sB i ?pa ?pb ops = (Some OutOfRange, ops @ (?m # more))"
    using i fa(1) fb(1) m(1) "0.prems" by (subst anchors_loop.simps) (simp add: Let_def)
  moreover have "length (filter is_matched (?m # more)) = Suc (length IA) - i"
    using m(2) i by (simp add: filter_empty_conv[THEN iffD2])
  moreover have "\<forall>a b. MATCHED_WORD a b \<in> set (?m # more) \<longrightarrow>
          (\<exists>k < length IA. a = IA ! k + elem_at sA (IA ! k) \<and> b = IB ! k + elem_at sB (IB ! k))"
  proof (intro allI impI)
    fix a b assume "MATCHED_WORD a b \<in> set (?m # more)"
    then have "a = ?pa + elem_at sA ?pa \<and> b = ?pb + elem_at sB ?pb" using m(2) by auto
    then show "\<exists>k < length IA. a = IA ! k + elem_at sA (IA ! k) \<and> b = IB ! k + elem_at sB (IB ! k)"
      using "0.prems" by (intro exI[of _ "i - 1"]) auto
  qed
  ultimately show ?case by blast
next
  case (Suc d)
  then have i: "i < length IA" by simp
  let ?pa = "IA ! (i - 1)" and ?pb = "IB ! (i - 1)"
  let ?na = "IA ! i" and ?nb = "IB ! i"
  have mem: "?pa \<in> set IA" "?pb \<in> set IB" "?na \<in> set IA" "?nb \<in> set IB"
    using Suc.prems i len by auto
  then have r: "0 \<le> ?pa" "nat ?pa < length cA" "0 \<le> ?pb" "nat ?pb < length cB"
    and rn: "0 \<le> ?na" "nat ?na < length cA" "0 \<le> ?nb" "nat ?nb < length cB"
    using rA rB by auto
  note fa = abs_facts[OF pA r(1,2)] and fb = abs_facts[OF pB r(3,4)]
  note na = abs_facts[OF pA rn(1,2)] and nb = abs_facts[OF pB rn(3,4)]
  have lt: "?pa < ?na" "?pb < ?nb"
    using sA sB i len Suc.prems by (auto simp: sorted_wrt_iff_nth_less)
  have mono: "?pa + elem_at sA ?pa < ?na + elem_at sA ?na" "?pb + elem_at sB ?pb < ?nb + elem_at sB ?nb"
    using abs_mono[OF pA r(1) lt(1) rn(2)] abs_mono[OF pB r(3) lt(2) rn(4)] by auto
  let ?m = "MATCHED_WORD (?pa + elem_at sA ?pa) (?pb + elem_at sB ?pb)"
  let ?ops1 = "ops @ [?m]"
  obtain m1 where m1: "walk old new (?na + elem_at sA ?na) (?nb + elem_at sB ?nb)
        (?pa + elem_at sA ?pa + 1) (?pb + elem_at sB ?pb + 1) ?ops1 = Inr (?ops1 @ m1)"
     "\<forall>op \<in> set m1. \<not> is_matched op"
  proof -
    have w: "0 \<le> ?pa + elem_at sA ?pa + 1" "?pa + elem_at sA ?pa + 1 \<le> ?na + elem_at sA ?na"
      "?na + elem_at sA ?na \<le> int (length old)"
      "0 \<le> ?pb + elem_at sB ?pb + 1" "?pb + elem_at sB ?pb + 1 \<le> ?nb + elem_at sB ?nb"
      "?nb + elem_at sB ?nb \<le> int (length new)"
      using fa(2) fb(2) na(3) nb(3) mono by linarith+
    show ?thesis using walk_ok[OF w, of ?ops1] that by blast
  qed
  have "d = length IA - Suc i" using Suc.hyps(2) by simp
  from Suc.hyps(1)[OF this, of "?ops1 @ m1"] i
  obtain m2 where m2: "anchors_loop old new IA IB sA sB (Suc i) ?na ?nb (?ops1 @ m1)
       = (Some OutOfRange, (?ops1 @ m1) @ m2)"
    "length (filter is_matched m2) = Suc (length IA) - Suc i"
    "\<forall>a b. MATCHED_WORD a b \<in> set m2 \<longrightarrow>
          (\<exists>k < length IA. a = IA ! k + elem_at sA (IA ! k) \<and> b = IB ! k + elem_at sB (IB ! k))"
    by auto
  have "anchors_loop old new IA IB sA sB i ?pa ?pb ops = (Some OutOfRange, ops @ (?m # m1 @ m2))"
    using i len fa(1) fb(1) na(1) nb(1) m1(1) m2(1) by (subst anchors_loop.simps) (simp add: Let_def)
  moreover have "length (filter is_matched (?m # m1 @ m2)) = Suc (length IA) - i"
    using m1(2) m2(2) i by (simp add: filter_empty_conv[THEN iffD2])
  moreover have "\<forall>a b. MATCHED_WORD a b \<in> set (?m # m1 @ m2) \<longrightarrow>
          (\<exists>k < length IA. a = IA ! k + elem_at sA (IA ! k) \<and> b = IB ! k + elem_at sB (IB ! k))"
  proof (intro allI impI)
    fix a b assume h: "MATCHED_WORD a b \<in> set (?m # m1 @ m2)"
    have "MATCHED_WORD a b \<notin> set m1" using m1(2) by force
    then consider "a = ?pa + elem_at sA ?pa \<and> b = ?pb + elem_at sB ?pb" | "MATCHED_WORD a b \<in> set m2"
      using h by auto
    then show "\<exists>k < length IA. a = IA ! k + elem_at sA (IA ! k) \<and> b = IB ! k + elem_at sB (IB ! k)"
    proof cases
      case 1
      then show ?thesis using Suc.prems by (intro exI[of _ "i - 1"]) auto
    next
      case 2
      then show ?thesis using m2(3) by blast
    qed
  qed
  ultimately show ?case by blast
qed

lemma comparable_nonempty:
  "get_comparable w \<noteq> [] \<Longrightarrow> \<not> is_segment w \<and> \<not> is_punct w"
  by (cases w) (auto split: if_splits)

lemma planner_ok:
  "\<exists>IA IB. lcs_indicies (fst (comparable_words old)) (fst (comparable_words new)) allowed_gaps
                 = Some (IA, IB) \<and> length IA = length IB \<and>
      (IA = [] \<longrightarrow> plan old new = Inr None) \<and>
      (IA \<noteq> [] \<longrightarrow> plan old new = Inl OutOfRange) \<and>
      length (filter is_matched (pending_ops_of old new)) = length IA \<and>
      (\<forall>a b. MATCHED_WORD a b \<in> set (pending_ops_of old new) \<longrightarrow>
         in_range old a \<and> in_range new b \<and>
         get_comparable (elem_at old a) = get_comparable (elem_at new b) \<and>
         get_comparable (elem_at old a) \<noteq> [])"
proof -
  obtain cA sA where A: "comparable_words old = (cA, sA)" by (cases "comparable_words old")
  obtain cB sB where B: "comparable_words new = (cB, sB)" by (cases "comparable_words new")
  have pA: "proj_ok old cA sA" and pB: "proj_ok new cB sB"
    using comparable_words_ok A B by auto
  obtain IA IB where l: "lcs_indicies cA cB allowed_gaps = Some (IA, IB)"
     "list_all2 (\<lambda>x y. cA ! nat x = cB ! nat y) IA IB"
     "\<forall>x \<in> set IA. 0 \<le> x \<and> x < int (length cA)"
     "\<forall>y \<in> set IB. 0 \<le> y \<and> y < int (length cB)"
     "sorted_wrt (<) IA" "sorted_wrt (<) IB"
    using lcs_indicies_sound[of cA cB allowed_gaps] by blast
  have len: "length IA = length IB" using l(2) by (rule list_all2_lengthD)
  have l': "lcs_indicies (fst (comparable_words old)) (fst (comparable_words new)) allowed_gaps
                 = Some (IA, IB)"
    using l(1) A B by simp
  show ?thesis
  proof (cases "IA = []")
    case True
    have "plan old new = Inr None" using A B l(1) True by (simp add: plan_def)
    moreover have "pending_ops_of old new = []" using A B l(1) True by (simp add: pending_ops_of_def)
    ultimately show ?thesis using True l' len by auto
  next
    case False
    then have nB: "IB \<noteq> []" using len by auto
    have one: "1 \<le> (1::nat)" "1 \<le> length IA" using False by (auto simp: Suc_le_eq)
    obtain ops where o: "anchors_loop old new IA IB sA sB 1 (IA ! (1 - 1)) (IB ! (1 - 1)) []
         = (Some OutOfRange, [] @ ops)"
      "length (filter is_matched ops) = Suc (length IA) - 1"
      "\<forall>a b. MATCHED_WORD a b \<in> set ops \<longrightarrow>
          (\<exists>k < length IA. a = IA ! k + elem_at sA (IA ! k) \<and> b = IB ! k + elem_at sB (IB ! k))"
      using anchors_loop_ok[OF pA pB len l(5,6,3,4) one, of "[]"] by blast
    have p: "plan old new = Inl OutOfRange"
      using A B l(1) False nB o(1) by (simp add: plan_def)
    have q: "pending_ops_of old new = ops"
      using A B l(1) False nB o(1) by (simp add: pending_ops_of_def)
    have m: "in_range old a \<and> in_range new b \<and>
                get_comparable (elem_at old a) = get_comparable (elem_at new b) \<and>
                get_comparable (elem_at old a) \<noteq> []" if h: "MATCHED_WORD a b \<in> set ops" for a b
    proof -
      obtain k where k: "k < length IA" "a = IA ! k + elem_at sA (IA ! k)" "b = IB ! k + elem_at sB (IB ! k)"
        using o(3) h by blast
      have "IA ! k \<in> set IA" "IB ! k \<in> set IB" using k(1) len by auto
      then have r: "0 \<le> IA ! k" "nat (IA ! k) < length cA" "0 \<le> IB ! k" "nat (IB ! k) < length cB"
        using l(3,4) by auto
      note fa = abs_facts[OF pA r(1,2)] and fb = abs_facts[OF pB r(3,4)]
      have eq: "cA ! nat (IA ! k) = cB ! nat (IB ! k)"
        using l(2) k(1) by (simp add: list_all2_conv_all_nth)
      have "in_range old a" "in_range new b"
        using fa(2,3) fb(2,3) unfolding k(2,3) in_range_def by linarith+
      moreover have "get_comparable (elem_at old a) = cA ! nat (IA ! k)"
        "get_comparable (elem_at new b) = cB ! nat (IB ! k)"
        using fa(4) fb(4) unfolding k(2,3) by (simp_all add: elem_at_def)
      ultimately show ?thesis using eq fa(5) by simp
    qed
    have all: "\<forall>a b. MATCHED_WORD a b \<in> set (pending_ops_of old new) \<longrightarrow>
         in_range old a \<and> in_range new b \<and>
         get_comparable (elem_at old a) = get_comparable (elem_at new b) \<and>
         get_comparable (elem_at old a) \<noteq> []"
      unfolding q using m by blast
    have cnt: "length (filter is_matched (pending_ops_of old new)) = length IA"
      unfolding q using o(2) by simp
    show ?thesis
      apply (rule exI[of _ IA], rule exI[of _ IB])
      apply (rule conjI[OF l'], rule conjI[OF len])
      using False p cnt all by (simp only: simp_thms)
  qed
qed


section \<open>Anchors of the planner\<close>

text \<open>
  Claim C9. Whatever the old and the new words are, the planner pushes exactly one
  \<open>MATCHED_WORD\<close> for every anchor of the alignment, and every \<open>MATCHED_WORD a b\<close> on
  \<open>pending_ops\<close> carries indices, already translated through the skip offsets, that lie inside
  the old and the new words and point at entries that are neither segments nor punctuation
  and have the same non-empty comparable form. In particular no anchor points at a segment.
\<close>

theorem matched_word_anchors:
  "(\<exists>IA IB. lcs_indicies (fst (comparable_words old_words)) (fst (comparable_words new_words))
               allowed_gaps = Some (IA, IB) \<and>
             length (filter is_matched (pending_ops_of old_words new_words)) = length IA) \<and>
   (\<forall>a b. MATCHED_WORD a b \<in> set (pending_ops_of old_words new_words) \<longrightarrow>
        in_range old_words a \<and> in_range new_words b \<and>
        \<not> is_segment (elem_at old_words a) \<and> \<not> is_punct (elem_at old_words a) \<and>
        \<not> is_segment (elem_at new_words b) \<and> \<not> is_punct (elem_at new_words b) \<and>
        get_comparable (elem_at old_words a) = get_comparable (elem_at new_words b) \<and>
        get_comparable (elem_at old_words a) \<noteq> [])"
proof -
  obtain IA IB where r:
    "lcs_indicies (fst (comparable_words old_words)) (fst (comparable_words new_words)) allowed_gaps
       = Some (IA, IB)"
    "length (filter is_matched (pending_ops_of old_words new_words)) = length IA"
    "\<forall>a b. MATCHED_WORD a b \<in> set (pending_ops_of old_words new_words) \<longrightarrow>
         in_range old_words a \<and> in_range new_words b \<and>
         get_comparable (elem_at old_words a) = get_comparable (elem_at new_words b) \<and>
         get_comparable (elem_at old_words a) \<noteq> []"
    using planner_ok[of old_words new_words] by blast
  have "in_range old_words a \<and> in_range new_words b \<and>
        \<not> is_segment (elem_at old_words a) \<and> \<not> is_punct (elem_at old_words a) \<and>
        \<not> is_segment (elem_at new_words b) \<and> \<not> is_punct (elem_at new_words b) \<and>
        get_comparable (elem_at old_words a) = get_comparable (elem_at new_words b) \<and>
        get_comparable (elem_at old_words a) \<noteq> []"
    if h: "MATCHED_WORD a b \<in> set (pending_ops_of old_words new_words)" for a b
  proof -
    have c: "in_range old_words a" "in_range new_words b"
        "get_comparable (elem_at old_words a) = get_comparable (elem_at new_words b)"
        "get_comparable (elem_at old_words a) \<noteq> []"
      using r(3) h by blast+
    then have "get_comparable (elem_at new_words b) \<noteq> []" by simp
    then show ?thesis using c comparable_nonempty by blast
  qed
  then show ?thesis using r(1,2) by blast
qed

theorem matched_word_anchors_witness:
  "pending_ops_of
        [TextWord [SingleToken ''a'' (1/2)] False 1, Segment (SingleToken ''.'' (1/2)) 1000 0 1,
         TextWord [SingleToken ''b'' (1/2)] False 1]
        [TextWord [SingleToken '' A'' (1/2)] False 1, Segment (SingleToken ''.'' (1/2)) 1200 0 1,
         TextWord [SingleToken '' b'' (1/2)] False 1]
     = [MATCHED_WORD 0 0, MERGE_SEGMENTS 1 1, CONFLICT 1 1, MATCHED_WORD 2 2] \<and>
   get_comparable (TextWord [SingleToken ''b'' (1/2)] False 1)
     = get_comparable (TextWord [SingleToken '' b'' (1/2)] False 1) \<and>
   \<not> is_segment (TextWord [SingleToken ''b'' (1/2)] False 1)"
proof -
  let ?old = "[TextWord [SingleToken ''a'' (1/2)] False 1, Segment (SingleToken ''.'' (1/2)) 1000 0 1,
         TextWord [SingleToken ''b'' (1/2)] False 1]"
  let ?new = "[TextWord [SingleToken '' A'' (1/2)] False 1, Segment (SingleToken ''.'' (1/2)) 1200 0 1,
         TextWord [SingleToken '' b'' (1/2)] False 1]"
  have p: "pending_ops_of ?old ?new
     = [MATCHED_WORD 0 0, MERGE_SEGMENTS 1 1, CONFLICT 1 1, MATCHED_WORD 2 2]"
    by code_simp
  then have "MATCHED_WORD 2 2 \<in> set (pending_ops_of ?old ?new)" by simp
  with matched_word_anchors[of ?old ?new]
  have "get_comparable (elem_at ?old 2) = get_comparable (elem_at ?new 2) \<and>
        \<not> is_segment (elem_at ?old 2)" by blast
  then show ?thesis using p by (simp add: elem_at_def)
qed


section \<open>Appending without overlap, and the stale boundary\<close>

lemma lcs_disjoint_empty:
  assumes "set A \<inter> set B = {}"
  shows "lcs_indicies A B G = Some ([], [])"
proof -
  obtain IA IB where l: "lcs_indicies A B G = Some (IA, IB)"
     "list_all2 (\<lambda>x y. A ! nat x = B ! nat y) IA IB"
     "\<forall>x \<in> set IA. 0 \<le> x \<and> x < int (length A)"
     "\<forall>y \<in> set IB. 0 \<le> y \<and> y < int (length B)"
    using lcs_indicies_sound[of A B G] by blast
  have len: "length IA = length IB" using l(2) by (rule list_all2_lengthD)
  have "IA = []"
  proof (rule ccontr)
    assume ne: "IA \<noteq> []"
    then have k: "0 < length IA" "0 < length IB" using len by auto
    then have "IA ! 0 \<in> set IA" "IB ! 0 \<in> set IB" by auto
    then have r: "nat (IA ! 0) < length A" "nat (IB ! 0) < length B" using l(3,4) by auto
    have "A ! nat (IA ! 0) = B ! nat (IB ! 0)" using l(2) k by (simp add: list_all2_conv_all_nth)
    moreover have "A ! nat (IA ! 0) \<in> set A" "B ! nat (IB ! 0) \<in> set B" using r by auto
    ultimately show False using assms by auto
  qed
  then show ?thesis using l(1) len by simp
qed

text \<open>
  Claim C7. When the transcript is not empty and the comparable words of the update share no
  element with those of the active tail, the aligner returns two empty lists, the planner
  emits no operation, and \<open>merge_one_\<close> appends the new words as they are: the entries
  afterwards are the old entries followed by all the new ones, in order.
\<close>

theorem no_overlap_appends:
  assumes "\<not> empty_transcript t"
    and "set (fst (comparable_words (get_words_splice t))) \<inter> set (fst (comparable_words new_words)) = {}"
  shows "lcs_indicies (fst (comparable_words (get_words_splice t))) (fst (comparable_words new_words))
           allowed_gaps = Some ([], []) \<and>
         plan (get_words_splice t) new_words = Inr None \<and>
         merge_one run clear_mistakes new_words t = Inr (t\<lparr>entries := entries t @ new_words\<rparr>)"
proof -
  have l: "lcs_indicies (fst (comparable_words (get_words_splice t))) (fst (comparable_words new_words))
           allowed_gaps = Some ([], [])"
    by (rule lcs_disjoint_empty[OF assms(2)])
  then have p: "plan (get_words_splice t) new_words = Inr None"
    by (auto simp: plan_def split: prod.splits)
  then have "merge_one run clear_mistakes new_words t = Inr (push_back new_words t)"
    using assms(1) by (simp add: merge_one_def)
  then show ?thesis using l p by (simp add: push_back_def)
qed

theorem no_overlap_appends_witness:
  "merge_one (\<lambda>ops new_words t. t) (\<lambda>threshold t. t)
     [TextWord [SingleToken ''baz'' (1/2)] False 1, TextWord [SingleToken ''qux'' (1/2)] False 1]
     \<lparr>entries = [TextWord [SingleToken ''foo'' (1/2)] False 1, TextWord [SingleToken ''bar'' (1/2)] False 1],
      stale_word_id = 0\<rparr>
   = Inr \<lparr>entries = [TextWord [SingleToken ''foo'' (1/2)] False 1, TextWord [SingleToken ''bar'' (1/2)] False 1,
                    TextWord [SingleToken ''baz'' (1/2)] False 1, TextWord [SingleToken ''qux'' (1/2)] False 1],
          stale_word_id = 0\<rparr>"
proof -
  let ?t = "\<lparr>entries = [TextWord [SingleToken ''foo'' (1/2)] False 1, TextWord [SingleToken ''bar'' (1/2)] False 1],
      stale_word_id = 0\<rparr>"
  let ?new = "[TextWord [SingleToken ''baz'' (1/2)] False 1, TextWord [SingleToken ''qux'' (1/2)] False 1]"
  have a: "\<not> empty_transcript ?t" by (simp add: empty_transcript_def)
  have b: "set (fst (comparable_words (get_words_splice ?t))) \<inter> set (fst (comparable_words ?new)) = {}"
    by (simp add: comparable_words_def get_words_splice_def trim_def isspace_def tolower_def)
  show ?thesis using no_overlap_appends[OF a b, of "\<lambda>ops new_words t. t" "\<lambda>threshold t. t"] by simp
qed

lemma merge_stops_at_anchor_read:
  assumes "\<not> empty_transcript t"
    and "lcs_indicies (fst (comparable_words (get_words_splice t))) (fst (comparable_words new_words))
           allowed_gaps = Some (IA, IB)"
    and "IA \<noteq> []"
  shows "merge_one run clear_mistakes new_words t = Inl OutOfRange"
proof -
  have "plan (get_words_splice t) new_words = Inl OutOfRange"
    using planner_ok[of "get_words_splice t" new_words] assms(2,3) by auto
  then show ?thesis using assms(1) by (simp add: merge_one_def)
qed


section \<open>The round of the walk for two segments\<close>

text \<open>
  Claim C2 against the code. Between the anchors \<open>a\<close> and \<open>b\<close> both lists hold a segment at
  index 1. The round of the walk that meets the two segments appends \<open>MERGE_SEGMENTS 1 1\<close>
  and then, falling through into the word rules, \<open>CONFLICT 1 1\<close>: two operations, not one. The
  lemma after the theorem states the same for every such round.
\<close>

theorem segment_pair_emits_two_operations:
  "walk [TextWord [SingleToken ''a'' (1/2)] False 1, Segment (SingleToken ''.'' (1/2)) 1000 0 1,
         TextWord [SingleToken ''b'' (1/2)] False 1]
        [TextWord [SingleToken ''a'' (1/2)] False 1, Segment (SingleToken ''.'' (1/2)) 1200 0 1,
         TextWord [SingleToken ''b'' (1/2)] False 1]
        2 2 1 1 [MATCHED_WORD 0 0]
     = Inr [MATCHED_WORD 0 0, MERGE_SEGMENTS 1 1, CONFLICT 1 1]"
  by code_simp

lemma segment_pair_step:
  assumes "curA \<noteq> nextA" "curB \<noteq> nextB" "in_range old curA" "in_range new curB"
    and "is_segment (elem_at old curA)" "is_segment (elem_at new curB)"
  shows "walk old new nextA nextB curA curB ops =
         walk old new nextA nextB (curA + 1) (curB + 1)
           (ops @ [MERGE_SEGMENTS curA curB, CONFLICT curA curB])"
proof -
  have "\<not> is_punct (elem_at old curA)" using assms(5) by (cases "elem_at old curA") auto
  then show ?thesis using assms by (subst walk.simps) (simp add: word_rules_def)
qed

section \<open>The published index, words without tokens, and cancellation\<close>

lemma serialize_fold:
  "snd (fold (serialize_word word_prob) ws (msg, k)) = k + int (length (filter is_segment ws))"
proof (induction ws arbitrary: msg k)
  case Nil
  then show ?case by simp
next
  case (Cons w ws)
  show ?case by (cases w) (simp_all add: Cons.IH)
qed

lemma active_index_all_segments:
  "active_index (serialize_transcript word_prob t msg) =
     stale_word_id t - int (length (filter is_segment (entries t)))"
  using serialize_fold[of word_prob "entries t" msg 0]
  by (auto simp: serialize_transcript_def split: prod.splits)

text \<open>
  Claim C4 against the code. A first update that begins with a segment is merged into the
  empty transcript: one segment, two words, stale boundary 0. No segment stands before the
  boundary, so the claim gives \<open>active_index = 0\<close>; the code subtracts the segments of the
  whole transcript (lemma \<open>active_index_all_segments\<close>) and publishes \<open>-1\<close>.
\<close>

theorem active_index_counts_all_segments:
  "merge_one (\<lambda>ops new_words t. t) (\<lambda>threshold t. t)
     [Segment (SingleToken ''.'' (1/2)) 1000 0 1,
      TextWord [SingleToken '' hello'' (1/2)] False 1,
      TextWord [SingleToken '' world'' (1/2)] False 1]
     \<lparr>entries = [], stale_word_id = 0\<rparr>
   = Inr \<lparr>entries = [Segment (SingleToken ''.'' (1/2)) 1000 0 1,
                    TextWord [SingleToken '' hello'' (1/2)] False 1,
                    TextWord [SingleToken '' world'' (1/2)] False 1],
          stale_word_id = 0\<rparr> \<and>
   active_index (serialize_transcript (\<lambda>ts. 0)
      \<lparr>entries = [Segment (SingleToken ''.'' (1/2)) 1000 0 1,
                  TextWord [SingleToken '' hello'' (1/2)] False 1,
                  TextWord [SingleToken '' world'' (1/2)] False 1],
       stale_word_id = 0\<rparr> empty_message) = - 1 \<and>
   stale_word_id \<lparr>entries = [Segment (SingleToken ''.'' (1/2)) 1000 0 1,
                  TextWord [SingleToken '' hello'' (1/2)] False 1,
                  TextWord [SingleToken '' world'' (1/2)] False 1],
       stale_word_id = 0\<rparr>
     - segments_before_stale \<lparr>entries = [Segment (SingleToken ''.'' (1/2)) 1000 0 1,
                  TextWord [SingleToken '' hello'' (1/2)] False 1,
                  TextWord [SingleToken '' world'' (1/2)] False 1],
       stale_word_id = 0\<rparr> = 0"
  by (simp add: merge_one_def empty_transcript_def push_back_def
      serialize_transcript_def segments_before_stale_def empty_message_def)

text \<open>
  Claim C8 against the code. The tokens \<open>Wait\<close>, \<open>.\<close>, \<open>.\<close> with a punctuation test that accepts
  the full stop: at the second full stop no word is in progress, and the punctuation branch
  still pushes the word in progress, so the output holds a word without any token.
\<close>

theorem punctuation_pushes_empty_word:
  "deserialize_msg
     \<lparr>is_special_token = (\<lambda>ts i. False), my_ispunct = (\<lambda>ts i. ts ! i = ''.''),
      join_tokens = (\<lambda>ts i. (False, 0)), combine_text = (\<lambda>ts i n. []),
      combine_prob = (\<lambda>ps i n. 0), whisper_ts_to_ms_ratio = 10\<rparr>
     \<lparr>stamp = 0, token_texts = ['' Wait'', ''.'', ''.''], token_probs = [9/10, 8/10, 7/10],
      segment_start_token_idxs = [], start_times = [], end_times = []\<rparr>
   = Some [TextWord [SingleToken '' Wait'' (9/10)] False 1,
           TextWord [SingleToken ''.'' (8/10)] True 1,
           TextWord [] False 1,
           TextWord [SingleToken ''.'' (7/10)] True 1] \<and>
   tokens (TextWord [] False 1) = []"
  by code_simp

lemma wait_returns_nonempty:
  assumes "wait_for_data env tick ring = Some r"
  shows "(\<forall>k. arrivals env k = []) \<longrightarrow> ring \<noteq> []"
proof (rule wait_for_data.raw_induct
    [where P = "\<lambda>env tick ring r. (\<forall>k. arrivals env k = []) \<longrightarrow> ring \<noteq> []", OF _ assms])
  fix w :: "inference_env \<Rightarrow> nat \<Rightarrow> Word list list \<Rightarrow> (nat \<times> Word list list) option"
    and env tick ring r
  assume ih: "\<And>env tick ring r. w env tick ring = Some r \<Longrightarrow> (\<forall>k. arrivals env k = []) \<longrightarrow> ring \<noteq> []"
    and step: "(if ring = [] then w env (Suc tick) (arrivals env tick) else Some (tick, ring)) = Some r"
  show "(\<forall>k. arrivals env k = []) \<longrightarrow> ring \<noteq> []"
  proof (intro impI notI)
    assume a: "\<forall>k. arrivals env k = []" and e: "ring = []"
    then have "w env (Suc tick) (arrivals env tick) = Some r" using step by simp
    then have "arrivals env tick \<noteq> []" using ih a by blast
    then show False using a by simp
  qed
qed

lemma wait_never_ends:
  "\<forall>k. arrivals env k = [] \<Longrightarrow> wait_for_data env tick [] = None"
  using wait_returns_nonempty[of env tick "[]"] by (cases "wait_for_data env tick []") auto

text \<open>
  Claim C10 against the code. The ring stays empty, the client cancels during the first
  sleep, and the deadline of 1000 ms passes after 67 sleeps of 15 ms: the handler stays in
  the waiting loop, which tests neither, and never returns.
\<close>

theorem cancel_not_seen_while_ring_empty:
  "on_inference_accepted
     \<lparr>ok_at = (\<lambda>k. True), now_at = (\<lambda>k. 15 * int k), canceling_at = (\<lambda>k. 1 \<le> k),
      arrivals = (\<lambda>k. [])\<rparr> 1000 [] = None"
proof -
  let ?env = "\<lparr>ok_at = (\<lambda>k. True), now_at = (\<lambda>k. 15 * int k), canceling_at = (\<lambda>k. 1 \<le> k),
      arrivals = (\<lambda>k. [])\<rparr>"
  have "wait_for_data ?env 0 [] = None" by (rule wait_never_ends) simp
  then show ?thesis
    unfolding on_inference_accepted_def by (subst inference_loop.simps) simp
qed

section \<open>Aligning a list with itself\<close>

lemma cell_bound:
  assumes ok: "\<And>i j. i \<le> nA \<Longrightarrow> j \<le> nB \<Longrightarrow> cell_ok A B st i j"
  shows "i \<le> nA \<Longrightarrow> j \<le> nB \<Longrightarrow> dp_length (get2 (dp st) i j) \<le> int (min i j)"
proof (induction i arbitrary: j rule: less_induct)
  case (less i)
  show ?case
  proof (cases "dp_length (get2 (dp st) i j) = 0")
    case True
    then show ?thesis by simp
  next
    case False
    obtain a b where ab: "get2 (prev st) i j = (a, b)" by (cases "get2 (prev st) i j")
    have f: "0 \<le> a" "a < int i" "0 \<le> b" "b < int j"
      "dp_length (get2 (dp st) (nat a) (nat b)) = dp_length (get2 (dp st) i j) - 1"
      using ok[OF less.prems] False ab by (auto simp: cell_ok_def)
    have "nat a < i" "nat a \<le> nA" "nat b \<le> nB" using f less.prems by auto
    then have "dp_length (get2 (dp st) (nat a) (nat b)) \<le> int (min (nat a) (nat b))"
      using less.IH by blast
    then show ?thesis using f by auto
  qed
qed

lemma lcs_self_diag:
  "k \<le> length A \<Longrightarrow>
     dp_length (get2 (dp (lcs_fill A A G)) k k) = int k \<and>
     get2 (prev (lcs_fill A A G)) k k = (int k - 1, int k - 1)"
proof (induction k)
  case 0
  have "\<not> processed (Suc (length A)) 1 0 0" by (simp add: processed_def)
  then have "dp_length (get2 (dp (lcs_fill A A G)) 0 0) = 0"
    using lcs_fill_inv(1)[of A A G] by (auto simp: tab_inv_def)
  moreover have "cell_ok A A (lcs_fill A A G) 0 0"
    using lcs_fill_inv(1)[of A A G] by (auto simp: tab_inv_def)
  ultimately show ?case by (auto simp: cell_ok_def)
next
  case (Suc k)
  have "processed (Suc (length A)) 1 (Suc k) (Suc k)" using Suc.prems by (simp add: processed_def)
  then have "get2 (prev (lcs_fill A A G)) (Suc k) (Suc k) = (int (Suc k) - 1, int (Suc k) - 1)"
    "dp_length (get2 (dp (lcs_fill A A G)) (Suc k) (Suc k))
       = dp_length (get2 (dp (lcs_fill A A G)) (Suc k - 1) (Suc k - 1)) + 1"
    using lcs_fill_inv(3)[of A A G] Suc.prems unfolding match_inv_def by blast+
  then show ?case using Suc by simp
qed

lemma lcs_self_backtrack:
  "k \<le> length A \<Longrightarrow>
     backtrack (prev (lcs_fill A A G)) (int k - 1) (int k - 1) accA accB
       = Some (accA @ rev (map int [0..<k]), accB @ rev (map int [0..<k]))"
proof (induction k arbitrary: accA accB)
  case 0
  then show ?case by (simp add: backtrack.simps)
next
  case (Suc k)
  have wf: "wf_tab (length A) (length A) (prev (lcs_fill A A G))"
    using lcs_fill_inv(1)[of A A G] by (simp add: tab_inv_def)
  then have inr: "k < length (prev (lcs_fill A A G))" "k < length (prev (lcs_fill A A G) ! k)"
    using Suc.prems by (auto simp: wf_tab_def)
  have p: "get2 (prev (lcs_fill A A G)) k k = (int k - 1, int k - 1)"
    using lcs_self_diag[of k A G] Suc.prems by simp
  have "backtrack (prev (lcs_fill A A G)) (int k) (int k) accA accB
      = backtrack (prev (lcs_fill A A G)) (int k - 1) (int k - 1) (accA @ [int k]) (accB @ [int k])"
    using inr p by (subst backtrack.simps) simp
  then show ?case using Suc.IH[of "accA @ [int k]" "accB @ [int k]"] Suc.prems by simp
qed

lemma lcs_self:
  "lcs_indicies A A G = Some (map int [0..<length A], map int [0..<length A])"
proof (cases "A = []")
  case True
  have "maxLength (lcs_fill A A G) = 0"
    using lcs_fill_inv(2)[of A A G] True by (auto simp: max_inv_def processed_def)
  then show ?thesis using True by (simp add: lcs_indicies_def)
next
  case False
  let ?st = "lcs_fill A A G" and ?n = "length A"
  have ok: "\<And>i j. i \<le> ?n \<Longrightarrow> j \<le> ?n \<Longrightarrow> cell_ok A A ?st i j"
    using lcs_fill_inv(1)[of A A G] by (simp add: tab_inv_def)
  have ge: "int ?n \<le> maxLength ?st"
    using lcs_fill_max[of ?n A ?n A G] lcs_self_diag[of ?n A G] by simp
  then have nz: "maxLength ?st \<noteq> 0" using False by auto
  then have e: "0 \<le> endIndexA ?st" "0 \<le> endIndexB ?st"
    "nat (endIndexA ?st) \<le> ?n" "nat (endIndexB ?st) \<le> ?n"
    "dp_length (get2 (dp ?st) (nat (endIndexA ?st)) (nat (endIndexB ?st))) = maxLength ?st"
    using lcs_fill_inv(2)[of A A G] by (auto simp: max_inv_def)
  have "maxLength ?st \<le> int (min (nat (endIndexA ?st)) (nat (endIndexB ?st)))"
    using cell_bound[OF ok e(3,4)] e(5) by simp
  then have eq: "nat (endIndexA ?st) = ?n" "nat (endIndexB ?st) = ?n" using ge e(3,4) by auto
  have p: "get2 (prev ?st) ?n ?n = (int ?n - 1, int ?n - 1)"
    using lcs_self_diag[of ?n A G] by simp
  have "backtrack (prev ?st) (int ?n - 1) (int ?n - 1) [] []
       = Some ([] @ rev (map int [0..<?n]), [] @ rev (map int [0..<?n]))"
    by (rule lcs_self_backtrack) simp
  moreover have "wf_tab ?n ?n (prev ?st)"
    using lcs_fill_inv(1)[of A A G] by (simp add: tab_inv_def)
  then have "nat (endIndexA ?st) < length (prev ?st)"
    "nat (endIndexB ?st) < length (prev ?st ! nat (endIndexA ?st))"
    using eq by (auto simp: wf_tab_def)
  ultimately show ?thesis using nz eq p e(1,2) by (simp add: lcs_indicies_def rev_map)
qed

section \<open>Planning an update against itself\<close>

lemma walk_self:
  "0 \<le> cur \<Longrightarrow> cur \<le> nxt \<Longrightarrow> nxt \<le> int (length U) \<Longrightarrow>
   \<exists>more. walk U U nxt nxt cur cur ops = Inr (ops @ more) \<and> (\<forall>op \<in> set more. diag_op (length U) op)"
proof (induction "nat (nxt - cur)" arbitrary: cur ops)
  case 0
  then have "cur = nxt" by simp
  then show ?case by (subst walk.simps) simp
next
  case (Suc d)
  then have lt: "cur < nxt" by linarith
  then have rng: "in_range U cur" using Suc.prems by (simp add: in_range_def)
  have dg: "diag_op (length U) (MERGE_SEGMENTS cur cur)" "diag_op (length U) (CONFLICT cur cur)"
    using Suc.prems lt by (auto simp: diag_op_def)
  have d: "d = nat (nxt - (cur + 1))" using Suc.hyps(2) by linarith
  have b: "0 \<le> cur + 1" "cur + 1 \<le> nxt" using Suc.prems lt by auto
  show ?case
  proof (cases "is_segment (elem_at U cur)")
    case True
    obtain more where m: "walk U U nxt nxt (cur + 1) (cur + 1) (ops @ [MERGE_SEGMENTS cur cur, CONFLICT cur cur])
        = Inr ((ops @ [MERGE_SEGMENTS cur cur, CONFLICT cur cur]) @ more)" "\<forall>op \<in> set more. diag_op (length U) op"
      using Suc.hyps(1)[OF d b Suc.prems(3), of "ops @ [MERGE_SEGMENTS cur cur, CONFLICT cur cur]"] by blast
    have "walk U U nxt nxt cur cur ops =
        walk U U nxt nxt (cur + 1) (cur + 1) (ops @ [MERGE_SEGMENTS cur cur, CONFLICT cur cur])"
      using lt rng True by (subst walk.simps) (simp add: word_rules_def)
    then have "walk U U nxt nxt cur cur ops = Inr (ops @ ([MERGE_SEGMENTS cur cur, CONFLICT cur cur] @ more))"
      using m(1) by simp
    moreover have "\<forall>op \<in> set ([MERGE_SEGMENTS cur cur, CONFLICT cur cur] @ more). diag_op (length U) op"
      using m(2) dg by simp
    ultimately show ?thesis by blast
  next
    case False
    obtain more where m: "walk U U nxt nxt (cur + 1) (cur + 1) (ops @ [CONFLICT cur cur])
        = Inr ((ops @ [CONFLICT cur cur]) @ more)" "\<forall>op \<in> set more. diag_op (length U) op"
      using Suc.hyps(1)[OF d b Suc.prems(3), of "ops @ [CONFLICT cur cur]"] by blast
    have "walk U U nxt nxt cur cur ops = walk U U nxt nxt (cur + 1) (cur + 1) (ops @ [CONFLICT cur cur])"
      using lt rng False by (subst walk.simps) (simp add: word_rules_def)
    then have "walk U U nxt nxt cur cur ops = Inr (ops @ ([CONFLICT cur cur] @ more))"
      using m(1) by simp
    moreover have "\<forall>op \<in> set ([CONFLICT cur cur] @ more). diag_op (length U) op"
      using m(2) dg by simp
    ultimately show ?thesis by blast
  qed
qed

lemma anchors_self:
  assumes p: "proj_ok U c s"
  shows "1 \<le> i \<Longrightarrow> i \<le> length c \<Longrightarrow>
     \<exists>more. anchors_loop U U (map int [0..<length c]) (map int [0..<length c]) s s i
               (int (i - 1)) (int (i - 1)) ops = (Some OutOfRange, ops @ more) \<and>
       (\<forall>op \<in> set more. diag_op (length U) op)"
proof (induction "length c - i" arbitrary: i ops)
  case 0
  then have i: "i = length c" by simp
  let ?p = "int (i - 1)"
  have r: "0 \<le> ?p" "nat ?p < length c" using "0.prems" by auto
  note f = abs_facts[OF p r]
  let ?a = "?p + elem_at s ?p"
  have w: "0 \<le> ?a + 1" "?a + 1 \<le> int (length U)" "int (length U) \<le> int (length U)"
    using f(2,3) by linarith+
  obtain more where m: "walk U U (int (length U)) (int (length U)) (?a + 1) (?a + 1) (ops @ [MATCHED_WORD ?a ?a])
      = Inr ((ops @ [MATCHED_WORD ?a ?a]) @ more)" "\<forall>op \<in> set more. diag_op (length U) op"
    using walk_self[OF w, of "ops @ [MATCHED_WORD ?a ?a]"] by blast
  have "anchors_loop U U (map int [0..<length c]) (map int [0..<length c]) s s i ?p ?p ops
      = (Some OutOfRange, ops @ (MATCHED_WORD ?a ?a # more))"
    using i f(1) m(1) "0.prems" by (subst anchors_loop.simps) (simp add: Let_def)
  moreover have "diag_op (length U) (MATCHED_WORD ?a ?a)" using f(2,3) by (auto simp: diag_op_def)
  ultimately show ?case using m(2) by auto
next
  case (Suc d)
  then have i: "i < length c" by simp
  let ?p = "int (i - 1)" and ?n = "int i"
  have r: "0 \<le> ?p" "nat ?p < length c" and rn: "0 \<le> ?n" "nat ?n < length c"
    using Suc.prems i by auto
  note f = abs_facts[OF p r] and fn = abs_facts[OF p rn]
  have lt: "?p < ?n" using Suc.prems by simp
  let ?a = "?p + elem_at s ?p" and ?b = "?n + elem_at s ?n"
  have mono: "?a < ?b" by (rule abs_mono[OF p r(1) lt rn(2)])
  have w: "0 \<le> ?a + 1" "?a + 1 \<le> ?b" "?b \<le> int (length U)"
    using f(2) fn(3) mono by linarith+
  obtain m1 where m1: "walk U U ?b ?b (?a + 1) (?a + 1) (ops @ [MATCHED_WORD ?a ?a])
      = Inr ((ops @ [MATCHED_WORD ?a ?a]) @ m1)" "\<forall>op \<in> set m1. diag_op (length U) op"
    using walk_self[OF w, of "ops @ [MATCHED_WORD ?a ?a]"] by blast
  have d: "d = length c - Suc i" using Suc.hyps(2) by simp
  have "1 \<le> Suc i" "Suc i \<le> length c" using i by auto
  from Suc.hyps(1)[OF d this, of "(ops @ [MATCHED_WORD ?a ?a]) @ m1"]
  obtain m2 where m2: "anchors_loop U U (map int [0..<length c]) (map int [0..<length c]) s s (Suc i)
       ?n ?n ((ops @ [MATCHED_WORD ?a ?a]) @ m1)
       = (Some OutOfRange, ((ops @ [MATCHED_WORD ?a ?a]) @ m1) @ m2)"
    "\<forall>op \<in> set m2. diag_op (length U) op"
    by auto
  have "anchors_loop U U (map int [0..<length c]) (map int [0..<length c]) s s i ?p ?p ops
      = (Some OutOfRange, ops @ (MATCHED_WORD ?a ?a # m1 @ m2))"
    using i f(1) fn(1) m1(1) m2(1) by (subst anchors_loop.simps) (simp add: Let_def)
  moreover have "diag_op (length U) (MATCHED_WORD ?a ?a)" using f(2,3) by (auto simp: diag_op_def)
  ultimately show ?case using m1(2) m2(2) by auto
qed

text \<open>
  When an update with a comparable word is planned against a transcript that holds exactly
  that update (the state after a first merge into the empty transcript), every operation
  pushed pairs an entry with itself: nothing is inserted and nothing is decremented.
\<close>

lemma pending_ops_self:
  assumes "fst (comparable_words U) \<noteq> []"
  shows "\<forall>op \<in> set (pending_ops_of U U). diag_op (length U) op"
proof -
  obtain c s where cs: "comparable_words U = (c, s)" by (cases "comparable_words U")
  have p: "proj_ok U c s" by (rule comparable_words_ok[OF cs])
  have ne: "c \<noteq> []" using assms cs by simp
  then have one: "1 \<le> (1::nat)" "1 \<le> length c" by (auto simp: Suc_le_eq)
  obtain ops where o: "anchors_loop U U (map int [0..<length c]) (map int [0..<length c]) s s 1
               (int (1 - 1)) (int (1 - 1)) [] = (Some OutOfRange, [] @ ops)"
    "\<forall>op \<in> set ops. diag_op (length U) op"
    using anchors_self[OF p one, of "[]"] by blast
  have z: "map int [0..<length c] ! 0 = 0" "map int [0..<length c] \<noteq> []" using ne by (auto simp: upt_conv_Cons)
  have "pending_ops_of U U = ops"
    using cs lcs_self[of c allowed_gaps] o(1) z by (simp add: pending_ops_of_def)
  then show ?thesis using o(2) by simp
qed

section \<open>Merging the same update twice\<close>





end
